theory Spec2Isabelle
  imports Main
begin

section \<open>JavaScript strings\<close>

text \<open>
  A JavaScript string is a sequence of code units. The model is \<^typ>\<open>string\<close>, so it covers
  the code units U+0000 to U+00FF; every function on strings below says what it does to
  each of them.
\<close>

text \<open>The class \<^verbatim>\<open>\s\<close> of a regular expression, also what \<^verbatim>\<open>trim()\<close> removes:
  tab, line feed, vertical tab, form feed, carriage return, space, no-break space.\<close>

definition is_space :: "char \<Rightarrow> bool" where
  "is_space c \<longleftrightarrow>
     c = CHR 0x09 \<or> c = CHR 0x0A \<or> c = CHR 0x0B \<or> c = CHR 0x0C \<or> c = CHR 0x0D \<or>
     c = CHR 0x20 \<or> c = CHR 0xA0"

text \<open>The characters \<^verbatim>\<open>.\<close> does not match, after which \<^verbatim>\<open>^\<close> and before which
  \<^verbatim>\<open>$\<close> match under the flag \<^verbatim>\<open>m\<close>: line feed and carriage return.\<close>

definition line_terminator :: "char \<Rightarrow> bool" where
  "line_terminator c \<longleftrightarrow> c = CHR 0x0A \<or> c = CHR 0x0D"

text \<open>\<^verbatim>\<open>s.startsWith(p)\<close> and \<^verbatim>\<open>s.endsWith(p)\<close>.\<close>

definition startsWith :: "string \<Rightarrow> string \<Rightarrow> bool" where
  "startsWith s p \<longleftrightarrow> take (length p) s = p"

definition endsWith :: "string \<Rightarrow> string \<Rightarrow> bool" where
  "endsWith s p \<longleftrightarrow> length p \<le> length s \<and> drop (length s - length p) s = p"

text \<open>\<^verbatim>\<open>s.includes(p)\<close>: \<^verbatim>\<open>p\<close> is found at some position of \<^verbatim>\<open>s\<close>, tried from the left.\<close>

fun js_includes :: "string \<Rightarrow> string \<Rightarrow> bool" where
  "js_includes [] p = (p = [])"
| "js_includes (c # cs) p = (startsWith (c # cs) p \<or> js_includes cs p)"

text \<open>\<^verbatim>\<open>toLowerCase()\<close> on one code unit: A to Z, and the capital letters of U+00C0 to
  U+00DE (the multiplication sign U+00D7 is not a letter), move up by 32.\<close>

definition toLowerChar :: "char \<Rightarrow> char" where
  "toLowerChar c =
     (let n = (of_char c :: nat)
      in if (65 \<le> n \<and> n \<le> 90) \<or> (192 \<le> n \<and> n \<le> 222 \<and> n \<noteq> 215)
         then char_of (n + 32) else c)"

definition toLowerCase :: "string \<Rightarrow> string" where
  "toLowerCase s = map toLowerChar s"

text \<open>\<^verbatim>\<open>trim()\<close>.\<close>

definition trim :: "string \<Rightarrow> string" where
  "trim s = rev (dropWhile is_space (rev (dropWhile is_space s)))"

text \<open>
  \<^verbatim>\<open>s.slice(a, b)\<close> and \<^verbatim>\<open>s.slice(a)\<close>: a negative index counts from the end, and
  every index is clamped to the string.
\<close>

definition slice_index :: "int \<Rightarrow> nat \<Rightarrow> nat" where
  "slice_index i n = (if i < 0 then nat (max (int n + i) 0) else min (nat i) n)"

definition slice :: "string \<Rightarrow> int \<Rightarrow> int \<Rightarrow> string" where
  "slice s a b =
     (let n = length s; from = slice_index a n; to = slice_index b n
      in take (to - from) (drop from s))"

definition slice_from :: "string \<Rightarrow> int \<Rightarrow> string" where
  "slice_from s a = drop (slice_index a (length s)) s"

text \<open>
  \<^verbatim>\<open>s.replace(/[\n\r]+$/, "")\<close>: the leftmost position from which only line feeds and
  carriage returns follow, up to the end, is where the match starts; the match is removed.
\<close>

fun strip_trailing_newlines :: "string \<Rightarrow> string" where
  "strip_trailing_newlines [] = []"
| "strip_trailing_newlines (c # cs) =
     (if list_all line_terminator (c # cs) then [] else c # strip_trailing_newlines cs)"

text \<open>\<^verbatim>\<open>s.split("\n")\<close>: never empty; the empty string gives one empty line.\<close>

fun split_lines :: "string \<Rightarrow> string list" where
  "split_lines [] = [[]]"
| "split_lines (c # cs) =
     (if c = CHR 0x0A then [] # split_lines cs
      else (case split_lines cs of [] \<Rightarrow> [[c]] | l # ls \<Rightarrow> (c # l) # ls))"

text \<open>\<^verbatim>\<open>xs.find(p)\<close>: the first element that satisfies \<^verbatim>\<open>p\<close>, or undefined.\<close>

fun find_first :: "('a \<Rightarrow> bool) \<Rightarrow> 'a list \<Rightarrow> 'a option" where
  "find_first p [] = None"
| "find_first p (x # xs) = (if p x then Some x else find_first p xs)"

section \<open>The slash-command hook: data\<close>

text \<open>
  A skill or microagent as the hook reads it: \<^verbatim>\<open>name\<close>, \<^verbatim>\<open>type\<close>, the optional
  \<^verbatim>\<open>content\<close> and the optional \<^verbatim>\<open>triggers\<close>.
\<close>

record Skill =
  name :: string
  skill_type :: string
  content :: "string option"
  triggers :: "string list option"

record SlashCommandItem =
  skill :: Skill
  command :: string

text \<open>
  The editable surface \<^verbatim>\<open>chatInputRef.current\<close>: its text (what \<^verbatim>\<open>innerText\<close> reads and
  \<^verbatim>\<open>textContent\<close> writes), the caret as the number of characters before it (none when
  the window has no selection range), whether it has the focus, and how many input events
  were dispatched on it.
\<close>

record ChatInput =
  innerText :: string
  caret :: "nat option"
  focused :: bool
  inputEvents :: nat

text \<open>
  The state of one \<^verbatim>\<open>useSlashCommand\<close> instance: the three \<^verbatim>\<open>useState\<close> cells, the
  \<^verbatim>\<open>slashRangeRef\<close> cell, the element behind \<^verbatim>\<open>chatInputRef\<close> (none when the ref is
  null) and the skills the query returned (none while it has no data). The highlighted
  index only ever holds 0, a predecessor of a positive value, a successor or a list length
  minus one, so it is a natural number.
\<close>

record Hook =
  isMenuOpen :: bool
  filterText :: string
  selectedIndex :: nat
  slashRange :: "(int \<times> int) option"
  chatInput :: "ChatInput option"
  skills :: "Skill list option"

section \<open>Candidates and filtering\<close>

text \<open>
  \<^verbatim>\<open>slashItems\<close>: \<^verbatim>\<open>items\<close> starts empty and each skill, in order, pushes onto its end.
\<close>

definition push_skill :: "Skill \<Rightarrow> SlashCommandItem list \<Rightarrow> SlashCommandItem list" where
  "push_skill sk items =
     (let trigs = (case triggers sk of None \<Rightarrow> [] | Some ts \<Rightarrow> ts);
          slashTriggers = filter (\<lambda>t. startsWith t ''/'') trigs
      in if length slashTriggers > 0
         then fold (\<lambda>trigger acc. acc @ [\<lparr>skill = sk, command = trigger\<rparr>]) slashTriggers items
         else if skill_type sk = ''agentskills''
         then items @ [\<lparr>skill = sk, command = ''/'' @ name sk\<rparr>]
         else items)"

definition slashItems :: "Skill list option \<Rightarrow> SlashCommandItem list" where
  "slashItems sks = (case sks of None \<Rightarrow> [] | Some xs \<Rightarrow> fold push_skill xs [])"

text \<open>\<^verbatim>\<open>filteredItems\<close>: the empty filter text is falsy and keeps every candidate.\<close>

definition filteredItems :: "SlashCommandItem list \<Rightarrow> string \<Rightarrow> SlashCommandItem list" where
  "filteredItems items ft =
     (if ft = [] then items
      else let lower = toLowerCase ft
           in filter (\<lambda>item. js_includes (toLowerCase (slice_from (command item) 1)) lower \<or>
                              js_includes (toLowerCase (name (skill item))) lower) items)"

section \<open>Detecting the slash word\<close>

text \<open>\<^verbatim>\<open>getCursorOffset\<close>: \<open>-1\<close> without a selection range.\<close>

definition getCursorOffset :: "ChatInput \<Rightarrow> int" where
  "getCursorOffset el = (case caret el of None \<Rightarrow> - 1 | Some k \<Rightarrow> int k)"

text \<open>
  \<^verbatim>\<open>textBeforeCursor.match(/(^|\s)(\/\S*)$/)\<close>, its group 2. A match that starts at a
  position is a slash followed by non-space characters up to the end, after the start of
  the text (first alternative, position 0 only) or after one space character (second
  alternative); the positions are tried from the left.
\<close>

definition slash_word :: "string \<Rightarrow> bool" where
  "slash_word s = (case s of [] \<Rightarrow> False | c # r \<Rightarrow> c = CHR ''/'' \<and> list_all (\<lambda>x. \<not> is_space x) r)"

fun match_space_slash :: "string \<Rightarrow> string option" where
  "match_space_slash [] = None"
| "match_space_slash (c # cs) =
     (if is_space c \<and> slash_word cs then Some cs else match_space_slash cs)"

definition match_slash :: "string \<Rightarrow> string option" where
  "match_slash tb = (if slash_word tb then Some tb else match_space_slash tb)"

text \<open>\<^verbatim>\<open>getSlashText\<close>: the filter text, and the start and the end of the slash word.\<close>

definition getSlashText :: "ChatInput option \<Rightarrow> (string \<times> int \<times> int) option" where
  "getSlashText element =
     (case element of
        None \<Rightarrow> None
      | Some el \<Rightarrow>
          (let text = strip_trailing_newlines (innerText el);
               cursor = getCursorOffset el
           in if cursor < 0 then None
              else let textBeforeCursor = slice text 0 cursor
                   in (case match_slash textBeforeCursor of
                         None \<Rightarrow> None
                       | Some slashWord \<Rightarrow>
                           (let start = int (length textBeforeCursor) - int (length slashWord);
                                afterCursor = slice_from text cursor;
                                trailing = takeWhile (\<lambda>x. \<not> is_space x) afterCursor;
                                end_pos = cursor + int (length trailing)
                            in Some (slice_from slashWord 1, start, end_pos)))))"

section \<open>The hook's callbacks\<close>

text \<open>\<^verbatim>\<open>updateSlashMenu\<close>.\<close>

definition updateSlashMenu :: "Hook \<Rightarrow> Hook" where
  "updateSlashMenu h =
     (case getSlashText (chatInput h) of
        Some (txt, start, end_pos) \<Rightarrow>
          (if length (slashItems (skills h)) > 0
           then h\<lparr>filterText := txt, slashRange := Some (start, end_pos), isMenuOpen := True\<rparr>
           else h\<lparr>isMenuOpen := False, filterText := [], slashRange := None\<rparr>)
      | None \<Rightarrow> h\<lparr>isMenuOpen := False, filterText := [], slashRange := None\<rparr>)"

text \<open>
  \<^verbatim>\<open>selectItem\<close>. Writing \<^verbatim>\<open>textContent\<close> leaves one text node holding the new text (the
  replacement ends in a space, so the text is never empty), and the caret is set into it.
  In the fallback branch the caret collapses to the end of the element's contents.
\<close>

definition selectItem :: "SlashCommandItem \<Rightarrow> Hook \<Rightarrow> Hook" where
  "selectItem item h =
     (case chatInput h of
        None \<Rightarrow> h
      | Some el \<Rightarrow>
          (let currentText = strip_trailing_newlines (innerText el);
               replacement = command item @ '' '';
               el' = (case slashRange h of
                        Some (start, end_pos) \<Rightarrow>
                          (let newText = slice currentText 0 start @ replacement @
                                         slice_from currentText end_pos;
                               cursorPos = start + int (length replacement);
                               offset = min cursorPos (int (length newText))
                           in el\<lparr>innerText := newText,
                                 caret := (if newText = [] then caret el else Some (nat offset))\<rparr>)
                      | None \<Rightarrow>
                          el\<lparr>innerText := replacement, caret := Some (length replacement)\<rparr>)
           in h\<lparr>isMenuOpen := False, filterText := [], selectedIndex := 0, slashRange := None,
                 chatInput := Some (el'\<lparr>inputEvents := inputEvents el' + 1, focused := True\<rparr>)\<rparr>))"

text \<open>
  \<^verbatim>\<open>handleSlashKeyDown\<close>. The result is the new state, the returned flag (the event was
  consumed) and whether \<^verbatim>\<open>preventDefault\<close> was called.
\<close>

definition handleSlashKeyDown :: "string \<Rightarrow> Hook \<Rightarrow> Hook \<times> bool \<times> bool" where
  "handleSlashKeyDown key h =
     (let items = filteredItems (slashItems (skills h)) (filterText h)
      in if \<not> isMenuOpen h \<or> length items = 0 then (h, False, False)
         else if key = ''ArrowDown''
         then (h\<lparr>selectedIndex :=
                   (if selectedIndex h < length items - 1 then selectedIndex h + 1 else 0)\<rparr>,
               True, True)
         else if key = ''ArrowUp''
         then (h\<lparr>selectedIndex :=
                   (if selectedIndex h > 0 then selectedIndex h - 1 else length items - 1)\<rparr>,
               True, True)
         else if key = ''Enter'' \<or> key = ''Tab''
         then (if selectedIndex h < length items
               then (selectItem (items ! selectedIndex h) h, True, True)
               else (h, False, False))
         else if key = ''Escape''
         then (h\<lparr>isMenuOpen := False\<rparr>, True, True)
         else if key = ''ArrowLeft'' \<or> key = ''ArrowRight'' \<or> key = ''Home'' \<or> key = ''End''
         then (h\<lparr>isMenuOpen := False\<rparr>, False, False)
         else (h, False, False))"

text \<open>\<^verbatim>\<open>closeMenu\<close>.\<close>

definition closeMenu :: "Hook \<Rightarrow> Hook" where
  "closeMenu h = h\<lparr>isMenuOpen := False\<rparr>"

text \<open>
  The effect \<^verbatim>\<open>useEffect(() => setSelectedIndex(0), [filterText])\<close>: after the render
  that follows a callback, it runs when the filter text differs from the one of the
  render before.
\<close>

definition resetEffect :: "Hook \<Rightarrow> Hook \<Rightarrow> Hook" where
  "resetEffect before after =
     (if filterText after \<noteq> filterText before then after\<lparr>selectedIndex := 0\<rparr> else after)"

text \<open>
  One event on the hook: a callback runs on the rendered state, then the component renders
  again and the effect runs.
\<close>

datatype HookEvent = UpdateSlashMenu | SelectItem SlashCommandItem | KeyDown string | CloseMenu

fun callback :: "HookEvent \<Rightarrow> Hook \<Rightarrow> Hook" where
  "callback UpdateSlashMenu h = updateSlashMenu h"
| "callback (SelectItem item) h = selectItem item h"
| "callback (KeyDown key) h = fst (handleSlashKeyDown key h)"
| "callback CloseMenu h = closeMenu h"

definition dispatch :: "HookEvent \<Rightarrow> Hook \<Rightarrow> Hook" where
  "dispatch ev h = resetEffect h (callback ev h)"

section \<open>Markdown stripping\<close>

text \<open>
  One attempt of \<^verbatim>\<open>(.+?)d\<close> right after an opening delimiter \<open>d\<close>: the lazy group takes
  one character that is not a line terminator, then the closing delimiter is tried, and
  the group grows by one character each time the delimiter is not there. The result is
  the captured group and the text after the closing delimiter.
\<close>

fun lazy_until :: "string \<Rightarrow> string \<Rightarrow> (string \<times> string) option" where
  "lazy_until d [] = None"
| "lazy_until d (c # cs) =
     (if line_terminator c then None
      else if startsWith cs d then Some ([c], drop (length d) cs)
      else (case lazy_until d cs of None \<Rightarrow> None | Some (cap, rest) \<Rightarrow> Some (c # cap, rest)))"

lemma lazy_until_shorter: "lazy_until d s = Some (cap, rest) \<Longrightarrow> length rest < length s"
  by (induction s arbitrary: cap) (auto split: if_splits option.splits)

text \<open>
  \<^verbatim>\<open>s.replace(/d(.+?)d/g, "$1")\<close> for a literal delimiter \<open>d\<close>: the matches are searched
  from the left, each replaced by its group, and the search goes on after the match.
\<close>

function replace_delim :: "string \<Rightarrow> string \<Rightarrow> string" where
  "replace_delim d [] = []"
| "replace_delim d (c # cs) =
     (if startsWith (c # cs) d
      then (case lazy_until d (drop (length d) (c # cs)) of
              Some (cap, rest) \<Rightarrow> cap @ replace_delim d rest
            | None \<Rightarrow> c # replace_delim d cs)
      else c # replace_delim d cs)"
  by pat_completeness auto
termination
  by (relation "measure (\<lambda>(d, s). length s)") (auto dest!: lazy_until_shorter)

text \<open>\<^verbatim>\<open>[^x]*x\<close>: the characters before the first \<open>x\<close>, and the text after it.\<close>

fun until_char :: "char \<Rightarrow> string \<Rightarrow> (string \<times> string) option" where
  "until_char x [] = None"
| "until_char x (c # cs) =
     (if c = x then Some ([], cs)
      else (case until_char x cs of None \<Rightarrow> None | Some (a, r) \<Rightarrow> Some (c # a, r)))"

lemma until_char_shorter: "until_char x s = Some (a, r) \<Longrightarrow> length r < length s"
  by (induction s arbitrary: a) (auto split: if_splits option.splits)

text \<open>
  One attempt of \<^verbatim>\<open>\[([^\]]*)\]\([^)]*\)\<close> at the start of a text: the group and the text
  after the match. Both classes exclude the character that follows them, so each run ends
  at the first such character.
\<close>

definition match_link :: "string \<Rightarrow> (string \<times> string) option" where
  "match_link s =
     (case s of
        [] \<Rightarrow> None
      | c # cs \<Rightarrow>
          if c \<noteq> CHR ''['' then None
          else (case until_char (CHR '']'') cs of
                  None \<Rightarrow> None
                | Some (txt, r1) \<Rightarrow>
                    (case r1 of
                       [] \<Rightarrow> None
                     | p # r2 \<Rightarrow>
                         if p \<noteq> CHR ''('' then None
                         else (case until_char (CHR '')'') r2 of
                                 None \<Rightarrow> None
                               | Some (url, r3) \<Rightarrow> Some (txt, r3)))))"

lemma match_link_shorter: "match_link s = Some (txt, rest) \<Longrightarrow> length rest < length s"
  by (auto simp: match_link_def split: list.splits if_splits option.splits
      dest!: until_char_shorter)

text \<open>\<^verbatim>\<open>s.replace(/!\[([^\]]*)\]\([^)]*\)/g, "$1")\<close>.\<close>

function replace_images :: "string \<Rightarrow> string" where
  "replace_images [] = []"
| "replace_images (c # cs) =
     (if c = CHR ''!''
      then (case match_link cs of
              Some (alt, rest) \<Rightarrow> alt @ replace_images rest
            | None \<Rightarrow> c # replace_images cs)
      else c # replace_images cs)"
  by pat_completeness auto
termination
  by (relation "measure length") (auto dest!: match_link_shorter)

text \<open>\<^verbatim>\<open>s.replace(/\[([^\]]*)\]\([^)]*\)/g, "$1")\<close>.\<close>

function replace_links :: "string \<Rightarrow> string" where
  "replace_links [] = []"
| "replace_links (c # cs) =
     (case match_link (c # cs) of
        Some (txt, rest) \<Rightarrow> txt @ replace_links rest
      | None \<Rightarrow> c # replace_links cs)"
  by pat_completeness auto
termination
  by (relation "measure length") (auto dest!: match_link_shorter)

text \<open>\<^verbatim>\<open>stripMarkdown\<close>: the ten replacements, in the order of the source.\<close>

definition stripMarkdown :: "string \<Rightarrow> string" where
  "stripMarkdown text =
     replace_delim ''~~''
       (replace_delim ''`''
         (replace_delim ''_''
           (replace_delim ''__''
             (replace_delim ''___''
               (replace_delim ''*''
                 (replace_delim ''**''
                   (replace_delim ''***''
                     (replace_links (replace_images text)))))))))"

section \<open>Skill descriptions\<close>

text \<open>The first result among the attempts, tried in the order of the list.\<close>

fun first_some :: "('a \<Rightarrow> 'b option) \<Rightarrow> 'a list \<Rightarrow> 'b option" where
  "first_some f [] = None"
| "first_some f (x # xs) = (case f x of Some y \<Rightarrow> Some y | None \<Rightarrow> first_some f xs)"

text \<open>
  The lazy \<^verbatim>\<open>[\s\S]*?\<close> followed by a literal \<open>p\<close>: the text before the first place
  where \<open>p\<close> stands, and the text after it.
\<close>

fun find_sub :: "string \<Rightarrow> string \<Rightarrow> (string \<times> string) option" where
  "find_sub p [] = (if p = [] then Some ([], []) else None)"
| "find_sub p (c # cs) =
     (if startsWith (c # cs) p then Some ([], drop (length p) (c # cs))
      else (case find_sub p cs of None \<Rightarrow> None | Some (a, r) \<Rightarrow> Some (c # a, r)))"

text \<open>
  \<^verbatim>\<open>content.match(/^---\s*\n([\s\S]*?)\n---/)\<close>: group 1 and the text after the whole
  match. After the three dashes the greedy \<^verbatim>\<open>\s*\<close> takes the whole run of space
  characters and gives them back one at a time, until the character it stops before is a
  line feed after which the rest of the pattern matches.
\<close>

definition frontmatterMatch :: "string \<Rightarrow> (string \<times> string) option" where
  "frontmatterMatch cnt =
     (if startsWith cnt ''---''
      then (let r = drop 3 cnt; w = length (takeWhile is_space r)
            in first_some
                 (\<lambda>j. if r ! j = CHR 0x0A then find_sub ''\<newline>---'' (drop (Suc j) r) else None)
                 (rev [0..<w]))
      else None)"

text \<open>
  \<^verbatim>\<open>\s*(.+)$\<close> under the flag \<^verbatim>\<open>m\<close>, right after \<^verbatim>\<open>description:\<close>: the greedy
  \<^verbatim>\<open>\s*\<close> gives space characters back until a character that is not a line terminator
  follows; the group is the run of such characters from there, which ends at a line
  terminator or at the end, where \<^verbatim>\<open>$\<close> matches.
\<close>

definition description_value :: "string \<Rightarrow> string option" where
  "description_value r =
     (let w = length (takeWhile is_space r)
      in first_some
           (\<lambda>j. if j < length r \<and> \<not> line_terminator (r ! j)
                then Some (takeWhile (\<lambda>c. \<not> line_terminator c) (drop j r)) else None)
           (rev [0..<Suc w]))"

text \<open>
  \<^verbatim>\<open>fm.match(/^description:\s*(.+)$/m)\<close>, its group 1: the positions are tried from the
  left, and \<^verbatim>\<open>^\<close> holds at the start and after a line terminator.
\<close>

fun match_description :: "bool \<Rightarrow> string \<Rightarrow> string option" where
  "match_description line_start [] = None"
| "match_description line_start (c # cs) =
     (case (if line_start \<and> startsWith (c # cs) ''description:''
            then description_value (drop 12 (c # cs)) else None) of
        Some v \<Rightarrow> Some v
      | None \<Rightarrow> match_description (line_terminator c) cs)"

text \<open>The quotes of a YAML value: \<^verbatim>\<open>desc.slice(1, -1)\<close> when it starts and ends with the
  same quote character.\<close>

definition unquote :: "string \<Rightarrow> string" where
  "unquote desc =
     (if (startsWith desc [CHR 0x22] \<and> endsWith desc [CHR 0x22]) \<or>
         (startsWith desc [CHR 0x27] \<and> endsWith desc [CHR 0x27])
      then slice desc 1 (- 1) else desc)"

text \<open>The predicate of \<^verbatim>\<open>find\<close> on the trimmed lines of the body.\<close>

definition meaningful_line :: "string \<Rightarrow> bool" where
  "meaningful_line line \<longleftrightarrow> length line > 0 \<and> \<not> startsWith line ''#'' \<and> line \<noteq> ''---''"

text \<open>
  \<^verbatim>\<open>stripped.match(/^[^.!?\n]*[.!?]/)\<close>, the whole match: the run of the class ends at
  the first full stop, exclamation mark, question mark or line feed, and that character has
  to be one of the first three.
\<close>

definition sentence_match :: "string \<Rightarrow> string option" where
  "sentence_match s =
     (let run = takeWhile (\<lambda>c. c \<noteq> CHR ''.'' \<and> c \<noteq> CHR ''!'' \<and> c \<noteq> CHR ''?'' \<and> c \<noteq> CHR 0x0A) s
      in (case drop (length run) s of
            [] \<Rightarrow> None
          | c # _ \<Rightarrow> if c = CHR ''.'' \<or> c = CHR ''!'' \<or> c = CHR ''?'' then Some (run @ [c]) else None))"

text \<open>The fall-back on the body: the first meaningful line, stripped, cut after its first
  sentence. A match of the sentence pattern is never empty, so it is what is returned.\<close>

definition describe_body :: "string \<Rightarrow> string option" where
  "describe_body body =
     (case find_first meaningful_line (map trim (split_lines body)) of
        None \<Rightarrow> None
      | Some meaningful \<Rightarrow>
          (let stripped = stripMarkdown meaningful
           in (case sentence_match stripped of Some s \<Rightarrow> Some s | None \<Rightarrow> Some stripped)))"

text \<open>\<^verbatim>\<open>getSkillDescription\<close>; none is \<^verbatim>\<open>null\<close>.\<close>

definition getSkillDescription :: "string \<Rightarrow> string option" where
  "getSkillDescription cnt =
     (case frontmatterMatch cnt of
        Some (fm, rest) \<Rightarrow>
          (case match_description True fm of
             Some d \<Rightarrow> Some (stripMarkdown (unquote (trim d)))
           | None \<Rightarrow> describe_body rest)
      | None \<Rightarrow> describe_body cnt)"

section \<open>The specification's notions\<close>

text \<open>
  The candidates one skill contributes, in the specification's words: one per trigger that
  starts with a slash; else one synthesized \<^verbatim>\<open>/name\<close> for the plugin type
  \<^verbatim>\<open>agentskills\<close>; else none.
\<close>

definition candidates_of :: "Skill \<Rightarrow> SlashCommandItem list" where
  "candidates_of sk =
     (let slashTriggers =
            filter (\<lambda>t. startsWith t ''/'') (case triggers sk of None \<Rightarrow> [] | Some ts \<Rightarrow> ts)
      in if slashTriggers \<noteq> [] then map (\<lambda>t. \<lparr>skill = sk, command = t\<rparr>) slashTriggers
         else if skill_type sk = ''agentskills'' then [\<lparr>skill = sk, command = ''/'' @ name sk\<rparr>]
         else [])"

text \<open>
  Containing a text case-insensitively, in the words of the specification: two code units
  are the same letter when they are equal, or one is a capital letter (A to Z, or a capital
  of U+00C0 to U+00DE other than the multiplication sign) and the other is the small letter
  32 code units above it; \<open>s\<close> contains \<open>f\<close> when some stretch of \<open>s\<close> is \<open>f\<close> letter by
  letter.
\<close>

definition capital_code :: "nat \<Rightarrow> bool" where
  "capital_code n \<longleftrightarrow> (65 \<le> n \<and> n \<le> 90) \<or> (192 \<le> n \<and> n \<le> 222 \<and> n \<noteq> 215)"

definition small_of :: "char \<Rightarrow> char \<Rightarrow> bool" where
  "small_of u l \<longleftrightarrow> capital_code (of_char u) \<and> (of_char l :: nat) = of_char u + 32"

definition same_letter :: "char \<Rightarrow> char \<Rightarrow> bool" where
  "same_letter c d \<longleftrightarrow> c = d \<or> small_of c d \<or> small_of d c"

definition contains_ci :: "string \<Rightarrow> string \<Rightarrow> bool" where
  "contains_ci s f \<longleftrightarrow> (\<exists>pre mid post. s = pre @ mid @ post \<and> list_all2 same_letter mid f)"

text \<open>The keys that close the menu without being consumed, and the keys the menu handles.\<close>

definition cursor_key :: "string \<Rightarrow> bool" where
  "cursor_key k \<longleftrightarrow> k = ''ArrowLeft'' \<or> k = ''ArrowRight'' \<or> k = ''Home'' \<or> k = ''End''"

definition menu_key :: "string \<Rightarrow> bool" where
  "menu_key k \<longleftrightarrow>
     k = ''ArrowDown'' \<or> k = ''ArrowUp'' \<or> k = ''Enter'' \<or> k = ''Tab'' \<or> k = ''Escape''"

text \<open>
  Markdown-decorated text without nesting: a sequence of spans, each a run of plain text,
  a span between two equal delimiters, a link or an image.
\<close>

datatype emphasis = Star3 | Star2 | Star1 | Under3 | Under2 | Under1 | Code | Strike

fun mark :: "emphasis \<Rightarrow> char" where
  "mark Star3 = CHR ''*''" | "mark Star2 = CHR ''*''" | "mark Star1 = CHR ''*''"
| "mark Under3 = CHR ''_''" | "mark Under2 = CHR ''_''" | "mark Under1 = CHR ''_''"
| "mark Code = CHR ''`''" | "mark Strike = CHR ''~''"

fun width :: "emphasis \<Rightarrow> nat" where
  "width Star3 = 3" | "width Star2 = 2" | "width Star1 = 1"
| "width Under3 = 3" | "width Under2 = 2" | "width Under1 = 1"
| "width Code = 1" | "width Strike = 2"

definition delimiter :: "emphasis \<Rightarrow> string" where
  "delimiter e = replicate (width e) (mark e)"

datatype span = Plain string | Emph emphasis string | Link string string | Image string string

fun render_span :: "span \<Rightarrow> string" where
  "render_span (Plain t) = t"
| "render_span (Emph e t) = delimiter e @ t @ delimiter e"
| "render_span (Link t u) = ''['' @ t @ '']('' @ u @ '')''"
| "render_span (Image t u) = ''!['' @ t @ '']('' @ u @ '')''"

fun inner_text :: "span \<Rightarrow> string" where
  "inner_text (Plain t) = t"
| "inner_text (Emph e t) = t"
| "inner_text (Link t u) = t"
| "inner_text (Image t u) = t"

definition render :: "span list \<Rightarrow> string" where
  "render doc = concat (map render_span doc)"

definition plain_text :: "span list \<Rightarrow> string" where
  "plain_text doc = concat (map inner_text doc)"

text \<open>
  The characters that open a pattern of \<^verbatim>\<open>stripMarkdown\<close>, and the closing bracket.
  Plain text is not empty and holds none of them; the inner text of a delimited span
  holds no line terminator either; the address of a link or image holds no exclamation
  mark, opening bracket or closing parenthesis.
\<close>

definition markup_char :: "char \<Rightarrow> bool" where
  "markup_char c \<longleftrightarrow>
     c = CHR ''!'' \<or> c = CHR ''['' \<or> c = CHR '']'' \<or> c = CHR ''*'' \<or> c = CHR ''_'' \<or>
     c = CHR ''`'' \<or> c = CHR ''~''"

definition plain :: "string \<Rightarrow> bool" where
  "plain t \<longleftrightarrow> t \<noteq> [] \<and> list_all (\<lambda>c. \<not> markup_char c) t"

definition url :: "string \<Rightarrow> bool" where
  "url u \<longleftrightarrow> list_all (\<lambda>c. c \<noteq> CHR ''!'' \<and> c \<noteq> CHR ''['' \<and> c \<noteq> CHR '')'') u"

fun wf_span :: "span \<Rightarrow> bool" where
  "wf_span (Plain t) = plain t"
| "wf_span (Emph e t) = (plain t \<and> list_all (\<lambda>c. \<not> line_terminator c) t)"
| "wf_span (Link t u) = (plain t \<and> url u)"
| "wf_span (Image t u) = (plain t \<and> url u)"

text \<open>Two delimited spans clash when they use the same delimiter character.\<close>

fun clash :: "span \<Rightarrow> span \<Rightarrow> bool" where
  "clash (Emph e t) (Emph e' t') = (mark e = mark e')"
| "clash a b = False"

text \<open>A flat document: well-formed spans, no delimited span right before one it clashes with.\<close>

fun flat :: "span list \<Rightarrow> bool" where
  "flat [] = True"
| "flat [a] = wf_span a"
| "flat (a # b # doc) = (wf_span a \<and> \<not> clash a b \<and> flat (b # doc))"

text \<open>
  The position, among the ten replacements, of the one that handles a kind of span, and
  the text of a document before the replacement at position \<open>k\<close>: the spans handled
  earlier are down to their inner text.
\<close>

fun emph_level :: "emphasis \<Rightarrow> nat" where
  "emph_level Star3 = 2" | "emph_level Star2 = 3" | "emph_level Star1 = 4"
| "emph_level Under3 = 5" | "emph_level Under2 = 6" | "emph_level Under1 = 7"
| "emph_level Code = 8" | "emph_level Strike = 9"

fun level :: "span \<Rightarrow> nat option" where
  "level (Plain t) = None"
| "level (Emph e t) = Some (emph_level e)"
| "level (Link t u) = Some 1"
| "level (Image t u) = Some 0"

definition span_at :: "nat \<Rightarrow> span \<Rightarrow> string" where
  "span_at k a =
     (case level a of
        None \<Rightarrow> inner_text a
      | Some l \<Rightarrow> if l < k then inner_text a else render_span a)"

definition doc_at :: "nat \<Rightarrow> span list \<Rightarrow> string" where
  "doc_at k doc = concat (map (span_at k) doc)"


text \<open>The lines of a frontmatter block, joined by line feeds.\<close>

fun join_lines :: "string list \<Rightarrow> string" where
  "join_lines [] = []"
| "join_lines [l] = l"
| "join_lines (l # l' # ls) = l @ ''\<newline>'' @ join_lines (l' # ls)"




text \<open>
  A content without a frontmatter block: its first line does not begin with \<^verbatim>\<open>---\<close>, or
  no later line does, so that a block that was opened is never closed.
\<close>

definition no_frontmatter :: "string \<Rightarrow> bool" where
  "no_frontmatter cnt \<longleftrightarrow>
     \<not> startsWith cnt ''---'' \<or> \<not> (\<exists>pre post. cnt = pre @ ''\<newline>---'' @ post)"



section \<open>Example data\<close>

definition skill_a :: Skill where
  "skill_a = \<lparr>name = ''a'', skill_type = ''knowledge'', content = None, triggers = Some [''/a'']\<rparr>"

definition skill_b :: Skill where
  "skill_b = \<lparr>name = ''b'', skill_type = ''agentskills'', content = None, triggers = Some []\<rparr>"

definition item_of :: "string \<Rightarrow> SlashCommandItem" where
  "item_of n =
     \<lparr>skill = \<lparr>name = n, skill_type = ''agentskills'', content = None, triggers = Some [''/'' @ n]\<rparr>,
      command = ''/'' @ n\<rparr>"

text \<open>A candidate of the skill named \<open>n\<close> with the trigger \<open>c\<close>, and three of them in mixed case.\<close>

definition item_named :: "string \<Rightarrow> string \<Rightarrow> SlashCommandItem" where
  "item_named n c =
     \<lparr>skill = \<lparr>name = n, skill_type = ''knowledge'', content = None, triggers = Some [c]\<rparr>,
      command = c\<rparr>"

definition mixed_items :: "SlashCommandItem list" where
  "mixed_items =
     [item_named ''RandomNumber'' ''/random-number'', item_named ''find'' ''/Code-Search'',
      item_named ''INIT'' ''/go'']"

text \<open>
  A hook with an open menu over the surface text \<open>t\<close>, the caret after \<open>k\<close> characters,
  the highlighted index \<open>i\<close>, the recorded range \<open>r\<close>, and the skills
  \<^verbatim>\<open>random-number\<close>, \<^verbatim>\<open>code-search\<close> and \<^verbatim>\<open>foobar\<close>.
\<close>

definition hook_on :: "string \<Rightarrow> nat \<Rightarrow> string \<Rightarrow> nat \<Rightarrow> (int \<times> int) option \<Rightarrow> Hook" where
  "hook_on t k ft i r =
     \<lparr>isMenuOpen = True, filterText = ft, selectedIndex = i, slashRange = r,
      chatInput = Some \<lparr>innerText = t, caret = Some k, focused = True, inputEvents = 0\<rparr>,
      skills = Some [skill (item_of ''random-number''), skill (item_of ''code-search''),
                     skill (item_of ''foobar'')]\<rparr>"

text \<open>A flat document with every kind of span.\<close>

definition sample_doc :: "span list" where
  "sample_doc =
     [Image ''logo'' ''logo.png'', Plain '' See '', Link ''the docs'' ''http://example.com/a_b'',
      Plain '' for '', Emph Star3 ''both'', Plain '', '', Emph Star2 ''bold'', Plain '', '',
      Emph Star1 ''italic'', Plain '', '', Emph Under3 ''both'', Emph Star2 ''bold'',
      Emph Under1 ''italic'', Plain '' (or '', Emph Code ''npm test'', Plain '') and '',
      Emph Strike ''removed'', Emph Under2 ''x'']"

section \<open>Strings: basic facts\<close>

lemma startsWith_iff: "startsWith s p \<longleftrightarrow> (\<exists>post. s = p @ post)"
proof
  assume "startsWith s p"
  then have "s = p @ drop (length p) s"
    by (metis append_take_drop_id startsWith_def)
  then show "\<exists>post. s = p @ post" ..
next
  assume "\<exists>post. s = p @ post"
  then show "startsWith s p" by (auto simp: startsWith_def)
qed

lemma js_includes_iff: "js_includes s p \<longleftrightarrow> (\<exists>pre post. s = pre @ p @ post)"
proof (induction s)
  case Nil
  then show ?case by auto
next
  case (Cons c cs)
  show ?case
  proof
    assume "js_includes (c # cs) p"
    then consider "startsWith (c # cs) p" | "js_includes cs p" by auto
    then show "\<exists>pre post. c # cs = pre @ p @ post"
    proof cases
      case 1
      then obtain post where "c # cs = p @ post" using startsWith_iff by blast
      then have "c # cs = [] @ p @ post" by simp
      then show ?thesis by blast
    next
      case 2
      then obtain pre post where "cs = pre @ p @ post" using Cons.IH by blast
      then have "c # cs = (c # pre) @ p @ post" by simp
      then show ?thesis by blast
    qed
  next
    assume "\<exists>pre post. c # cs = pre @ p @ post"
    then obtain pre post where e: "c # cs = pre @ p @ post" by blast
    show "js_includes (c # cs) p"
    proof (cases pre)
      case Nil
      with e have "startsWith (c # cs) p" using startsWith_iff by auto
      then show ?thesis by simp
    next
      case (Cons x pre')
      with e have "cs = pre' @ p @ post" by simp
      then have "js_includes cs p" using Cons.IH by blast
      then show ?thesis by simp
    qed
  qed
qed

lemma slice_from_1: "slice_from s 1 = drop 1 s"
  by (cases s) (simp_all add: slice_from_def slice_index_def)

lemma slice_0_nonneg: "0 \<le> b \<Longrightarrow> slice s 0 b = take (nat b) s"
  by (auto simp: slice_def slice_index_def Let_def min_def)

lemma slice_from_nonneg: "0 \<le> a \<Longrightarrow> slice_from s a = drop (nat a) s"
  by (auto simp: slice_from_def slice_index_def min_def)

section \<open>Markdown stripping on flat documents\<close>

lemma span_at_0: "span_at 0 a = render_span a"
  by (cases a) (simp_all add: span_at_def)

lemma doc_at_0: "doc_at 0 doc = render doc"
  by (simp add: doc_at_def render_def span_at_0 [abs_def])

lemma span_at_10: "span_at 10 a = inner_text a"
proof (cases a)
  case (Emph e t)
  then show ?thesis by (cases e) (simp_all add: span_at_def)
qed (simp_all add: span_at_def)

lemma doc_at_10: "doc_at 10 doc = plain_text doc"
  by (simp add: doc_at_def plain_text_def span_at_10 [abs_def])

lemma startsWith_Cons: "startsWith (c # s) (x # d) \<longleftrightarrow> c = x \<and> startsWith s d"
  by (auto simp: startsWith_def)

lemma startsWith_Nil2: "startsWith s []"
  by (simp add: startsWith_def)

lemma startsWith_Nil1: "startsWith [] d \<longleftrightarrow> d = []"
  by (auto simp: startsWith_def)

lemma replace_delim_other: "c \<noteq> x \<Longrightarrow> replace_delim (x # d) (c # s) = c # replace_delim (x # d) s"
  by (simp add: startsWith_Cons)

lemma replace_delim_skip:
  "x \<notin> set p \<Longrightarrow> replace_delim (x # d) (p @ s) = p @ replace_delim (x # d) s"
  by (induction p) (auto simp: startsWith_Cons)

lemma startsWith_replicate_short:
  assumes "j < n" and "r = [] \<or> hd r \<noteq> x"
  shows "\<not> startsWith (replicate j x @ r) (replicate n x)"
proof
  assume "startsWith (replicate j x @ r) (replicate n x)"
  then obtain post where e: "replicate j x @ r = replicate n x @ post"
    using startsWith_iff by blast
  from assms(1) obtain m where n: "n = j + Suc m" using less_iff_Suc_add by auto
  from e have "replicate j x @ r = replicate j x @ (replicate (Suc m) x @ post)"
    by (simp only: n replicate_add append_assoc)
  then have "r = replicate (Suc m) x @ post"
    by (simp only: same_append_eq)
  with assms(2) show False by auto
qed

lemma replace_delim_short_run:
  assumes "j < n" and "r = [] \<or> hd r \<noteq> x"
  shows "replace_delim (replicate n x) (replicate j x @ r) = replicate j x @ replace_delim (replicate n x) r"
  using assms
proof (induction j)
  case 0
  then show ?case by simp
next
  case (Suc j)
  then have "\<not> startsWith (replicate (Suc j) x @ r) (replicate n x)"
    using startsWith_replicate_short by blast
  then have "replace_delim (replicate n x) (replicate (Suc j) x @ r) =
             x # replace_delim (replicate n x) (replicate j x @ r)"
    by simp
  with Suc show ?case by simp
qed

lemma lazy_until_inner:
  assumes "t \<noteq> []" and "x \<notin> set t" and "list_all (\<lambda>c. \<not> line_terminator c) t"
  shows "lazy_until (x # d) (t @ (x # d) @ s) = Some (t, s)"
  using assms
proof (induction t)
  case Nil
  then show ?case by simp
next
  case (Cons c t)
  show ?case
  proof (cases t)
    case Nil
    with Cons.prems show ?thesis by (simp add: startsWith_def)
  next
    case (Cons c' t')
    with Cons.prems Cons.IH show ?thesis by (auto simp: startsWith_Cons)
  qed
qed

lemma replace_delim_match:
  assumes "t \<noteq> []" and "x \<notin> set t" and "list_all (\<lambda>c. \<not> line_terminator c) t"
  shows "replace_delim (x # d) ((x # d) @ t @ (x # d) @ s) = t @ replace_delim (x # d) s"
proof -
  have sw: "startsWith (x # (d @ t @ (x # d) @ s)) (x # d)" by (simp add: startsWith_def)
  have dr: "drop (length (x # d)) (x # (d @ t @ (x # d) @ s)) = t @ (x # d) @ s" by simp
  have "replace_delim (x # d) (x # (d @ t @ (x # d) @ s)) =
        (case lazy_until (x # d) (t @ (x # d) @ s) of
           Some (cap, rest) \<Rightarrow> cap @ replace_delim (x # d) rest
         | None \<Rightarrow> x # replace_delim (x # d) (d @ t @ (x # d) @ s))"
    using sw dr by (simp del: drop_Suc_Cons length_Cons append_Cons)
  then show ?thesis using lazy_until_inner [OF assms] by simp
qed

lemma delimiter_Cons: "delimiter e = mark e # replicate (width e - 1) (mark e)"
  by (cases e) (simp_all add: delimiter_def numeral_3_eq_3 numeral_2_eq_2)

lemma emph_level_inj: "emph_level e = emph_level e' \<Longrightarrow> e = e'"
  by (cases e; cases e'; simp)

lemma emph_level_width:
  "emph_level e0 < emph_level e \<Longrightarrow> mark e = mark e0 \<Longrightarrow> width e < width e0"
  by (cases e; cases e0; simp)

lemma markup_mark: "markup_char (mark e)"
  by (cases e) (simp_all add: markup_char_def)

lemma plain_no_mark: "plain t \<Longrightarrow> mark e \<notin> set t"
  using markup_mark by (auto simp: plain_def list_all_iff)

lemma plain_hd: "plain t \<Longrightarrow> t \<noteq> [] \<and> hd t \<noteq> mark e"
  using plain_no_mark [of t e] by (cases t) (auto simp: plain_def)

lemma skip_plain:
  "plain t \<Longrightarrow> replace_delim (delimiter e0) (t @ s) = t @ replace_delim (delimiter e0) s"
  using plain_no_mark [of t e0] by (simp add: delimiter_Cons replace_delim_skip)

lemma emph_stage_Emph:
  assumes "plain t" and "list_all (\<lambda>c. \<not> line_terminator c) t" and "s = [] \<or> hd s \<noteq> mark e"
  shows "replace_delim (delimiter e0) (span_at (emph_level e0) (Emph e t) @ s) =
         span_at (Suc (emph_level e0)) (Emph e t) @ replace_delim (delimiter e0) s"
proof -
  consider (earlier) "emph_level e < emph_level e0" | (now) "e = e0"
    | (other) "emph_level e0 < emph_level e" "mark e \<noteq> mark e0"
    | (short) "emph_level e0 < emph_level e" "mark e = mark e0"
    using emph_level_inj by (metis linorder_neqE_nat)
  then show ?thesis
  proof cases
    case earlier
    then show ?thesis using assms(1) by (simp add: span_at_def skip_plain)
  next
    case now
    have m: "replace_delim (delimiter e0) (delimiter e0 @ t @ delimiter e0 @ s) =
             t @ replace_delim (delimiter e0) s"
      unfolding delimiter_Cons [of e0]
      using assms(1,2) plain_no_mark [of t e0] plain_hd [of t e0]
      by (intro replace_delim_match) auto
    have "span_at (emph_level e0) (Emph e0 t) = delimiter e0 @ t @ delimiter e0"
      by (simp add: span_at_def)
    moreover have "span_at (Suc (emph_level e0)) (Emph e0 t) = t"
      by (simp add: span_at_def)
    ultimately show ?thesis using now m by simp
  next
    case other
    then have "mark e0 \<notin> set (delimiter e @ t @ delimiter e)"
      using plain_no_mark [OF assms(1), of e0] by (auto simp: delimiter_def)
    then have "replace_delim (mark e0 # replicate (width e0 - 1) (mark e0))
                 ((delimiter e @ t @ delimiter e) @ s) =
               (delimiter e @ t @ delimiter e) @
               replace_delim (mark e0 # replicate (width e0 - 1) (mark e0)) s"
      by (rule replace_delim_skip)
    then have "replace_delim (delimiter e0) ((delimiter e @ t @ delimiter e) @ s) =
               (delimiter e @ t @ delimiter e) @ replace_delim (delimiter e0) s"
      by (simp only: delimiter_Cons [of e0, symmetric])
    then show ?thesis using other by (simp add: span_at_def)
  next
    case short
    then have w: "width e < width e0" using emph_level_width by blast
    have d: "delimiter e = replicate (width e) (mark e0)" "delimiter e0 = replicate (width e0) (mark e0)"
      using short by (simp_all add: delimiter_def)
    have 1: "replace_delim (delimiter e0) (delimiter e @ (t @ delimiter e @ s)) =
             delimiter e @ replace_delim (delimiter e0) (t @ delimiter e @ s)"
      unfolding d using w plain_hd [OF assms(1), of e0]
      by (intro replace_delim_short_run) auto
    have 2: "replace_delim (delimiter e0) (t @ delimiter e @ s) =
             t @ replace_delim (delimiter e0) (delimiter e @ s)"
      using assms(1) by (rule skip_plain)
    have 3: "replace_delim (delimiter e0) (delimiter e @ s) =
             delimiter e @ replace_delim (delimiter e0) s"
      unfolding d using w assms(3) short by (intro replace_delim_short_run) auto
    show ?thesis using short 1 2 3 by (simp add: span_at_def)
  qed
qed

lemma emph_level_ge2: "2 \<le> emph_level e"
  by (cases e) simp_all

lemma emph_stage_span:
  assumes "wf_span a" and "\<And>e t. a = Emph e t \<Longrightarrow> s = [] \<or> hd s \<noteq> mark e"
  shows "replace_delim (delimiter e0) (span_at (emph_level e0) a @ s) =
         span_at (Suc (emph_level e0)) a @ replace_delim (delimiter e0) s"
proof (cases a)
  case (Plain t)
  then show ?thesis using assms(1) by (simp add: span_at_def skip_plain)
next
  case (Emph e t)
  then show ?thesis using assms emph_stage_Emph by simp
next
  case (Link t u)
  then show ?thesis using assms(1) emph_level_ge2 [of e0] by (simp add: span_at_def skip_plain)
next
  case (Image t u)
  then show ?thesis using assms(1) emph_level_ge2 [of e0] by (simp add: span_at_def skip_plain)
qed

lemma span_at_hd:
  assumes "wf_span b" and "\<not> clash (Emph e t) b"
  shows "span_at k b \<noteq> [] \<and> hd (span_at k b) \<noteq> mark e"
proof (cases b)
  case (Plain t')
  then show ?thesis using assms plain_hd by (simp add: span_at_def)
next
  case (Emph e' t')
  then have "hd (delimiter e' @ t' @ delimiter e') = mark e'" "delimiter e' @ t' @ delimiter e' \<noteq> []"
    by (simp_all add: delimiter_Cons)
  then show ?thesis using Emph assms plain_hd [of t' e] by (auto simp: span_at_def)
next
  case (Link t' u)
  have "mark e \<noteq> CHR ''[''" by (cases e) simp_all
  then show ?thesis using Link assms plain_hd [of t' e] by (auto simp: span_at_def)
next
  case (Image t' u)
  have "mark e \<noteq> CHR ''!''" by (cases e) simp_all
  then show ?thesis using Image assms plain_hd [of t' e] by (auto simp: span_at_def)
qed

lemma doc_at_Cons: "doc_at k (a # doc) = span_at k a @ doc_at k doc"
  by (simp add: doc_at_def)

lemma doc_at_Nil: "doc_at k [] = []"
  by (simp add: doc_at_def)

lemma emph_stage:
  "flat doc \<Longrightarrow>
   replace_delim (delimiter e0) (doc_at (emph_level e0) doc) = doc_at (Suc (emph_level e0)) doc"
proof (induction doc rule: flat.induct)
  case 1
  then show ?case by (simp add: doc_at_Nil)
next
  case (2 a)
  have "replace_delim (delimiter e0) (span_at (emph_level e0) a @ []) =
        span_at (Suc (emph_level e0)) a @ replace_delim (delimiter e0) []"
    using 2 by (intro emph_stage_span) auto
  then show ?case by (simp add: doc_at_Cons doc_at_Nil)
next
  case (3 a b doc)
  have nx: "\<And>e t. a = Emph e t \<Longrightarrow>
              doc_at (emph_level e0) (b # doc) = [] \<or> hd (doc_at (emph_level e0) (b # doc)) \<noteq> mark e"
  proof -
    fix e t assume "a = Emph e t"
    then have "span_at (emph_level e0) b \<noteq> [] \<and> hd (span_at (emph_level e0) b) \<noteq> mark e"
      using 3(2) span_at_hd [of b e t] by (cases doc) auto
    then show "doc_at (emph_level e0) (b # doc) = [] \<or> hd (doc_at (emph_level e0) (b # doc)) \<noteq> mark e"
      by (simp add: doc_at_Cons)
  qed
  have "replace_delim (delimiter e0) (span_at (emph_level e0) a @ doc_at (emph_level e0) (b # doc)) =
        span_at (Suc (emph_level e0)) a @ replace_delim (delimiter e0) (doc_at (emph_level e0) (b # doc))"
    using 3(2) nx by (intro emph_stage_span) auto
  then show ?case using 3 by (simp add: doc_at_Cons)
qed

lemma until_char_found: "x \<notin> set t \<Longrightarrow> until_char x (t @ x # s) = Some (t, s)"
  by (induction t) auto

lemma match_link_found:
  assumes "CHR '']'' \<notin> set t" and "CHR '')'' \<notin> set u"
  shows "match_link (''['' @ t @ '']('' @ u @ '')'' @ s) = Some (t, s)"
proof -
  have 1: "until_char (CHR '']'') (t @ CHR '']'' # (''('' @ u @ '')'' @ s)) = Some (t, ''('' @ u @ '')'' @ s)"
    using assms(1) by (rule until_char_found)
  have 2: "until_char (CHR '')'') (u @ CHR '')'' # s) = Some (u, s)"
    using assms(2) by (rule until_char_found)
  show ?thesis using 1 2 by (simp add: match_link_def)
qed

lemma replace_images_skip:
  "CHR ''!'' \<notin> set p \<Longrightarrow> replace_images (p @ s) = p @ replace_images s"
  by (induction p) auto

lemma match_link_other: "c \<noteq> CHR ''['' \<Longrightarrow> match_link (c # cs) = None"
  by (simp add: match_link_def)

lemma replace_links_skip:
  "CHR ''['' \<notin> set p \<Longrightarrow> replace_links (p @ s) = p @ replace_links s"
  by (induction p) (auto simp: match_link_other)

lemma replace_images_match:
  assumes "CHR '']'' \<notin> set t" and "CHR '')'' \<notin> set u"
  shows "replace_images (''!['' @ t @ '']('' @ u @ '')'' @ s) = t @ replace_images s"
  using match_link_found [OF assms, of s] by simp

lemma replace_links_match:
  assumes "CHR '']'' \<notin> set t" and "CHR '')'' \<notin> set u"
  shows "replace_links (''['' @ t @ '']('' @ u @ '')'' @ s) = t @ replace_links s"
proof -
  have "replace_links (CHR ''['' # (t @ '']('' @ u @ '')'' @ s)) =
        (case match_link (CHR ''['' # (t @ '']('' @ u @ '')'' @ s)) of
           Some (txt, rest) \<Rightarrow> txt @ replace_links rest
         | None \<Rightarrow> CHR ''['' # replace_links (t @ '']('' @ u @ '')'' @ s))"
    by (rule replace_links.simps)
  then show ?thesis using match_link_found [OF assms, of s] by simp
qed

lemma plain_chars:
  "plain t \<Longrightarrow> CHR ''!'' \<notin> set t \<and> CHR ''['' \<notin> set t \<and> CHR '']'' \<notin> set t"
  by (auto simp: plain_def list_all_iff markup_char_def)

lemma url_chars: "url u \<Longrightarrow> CHR ''!'' \<notin> set u \<and> CHR ''['' \<notin> set u \<and> CHR '')'' \<notin> set u"
  by (auto simp: url_def list_all_iff)

lemma delimiter_chars: "CHR ''!'' \<notin> set (delimiter e) \<and> CHR ''['' \<notin> set (delimiter e)"
  by (cases e) (simp_all add: delimiter_def)

lemma image_stage_span:
  assumes "wf_span a"
  shows "replace_images (span_at 0 a @ s) = span_at 1 a @ replace_images s"
proof (cases a)
  case (Plain t)
  then show ?thesis using assms plain_chars [of t] by (simp add: span_at_def replace_images_skip)
next
  case (Emph e t)
  then have "CHR ''!'' \<notin> set (delimiter e @ t @ delimiter e)"
    using assms plain_chars [of t] delimiter_chars [of e] by simp
  then have "replace_images ((delimiter e @ t @ delimiter e) @ s) =
             (delimiter e @ t @ delimiter e) @ replace_images s"
    by (rule replace_images_skip)
  then show ?thesis using Emph emph_level_ge2 [of e] by (simp add: span_at_def)
next
  case (Link t u)
  then have "CHR ''!'' \<notin> set (''['' @ t @ '']('' @ u @ '')'')"
    using assms plain_chars [of t] url_chars [of u] by simp
  then have "replace_images ((''['' @ t @ '']('' @ u @ '')'') @ s) =
             (''['' @ t @ '']('' @ u @ '')'') @ replace_images s"
    by (rule replace_images_skip)
  then show ?thesis using Link by (simp add: span_at_def)
next
  case (Image t u)
  then have "replace_images (''!['' @ t @ '']('' @ u @ '')'' @ s) = t @ replace_images s"
    using assms plain_chars [of t] url_chars [of u] by (intro replace_images_match) auto
  then show ?thesis using Image by (simp add: span_at_def)
qed

lemma link_stage_span:
  assumes "wf_span a"
  shows "replace_links (span_at 1 a @ s) = span_at 2 a @ replace_links s"
proof (cases a)
  case (Plain t)
  then show ?thesis using assms plain_chars [of t] by (simp add: span_at_def replace_links_skip)
next
  case (Emph e t)
  then have "CHR ''['' \<notin> set (delimiter e @ t @ delimiter e)"
    using assms plain_chars [of t] delimiter_chars [of e] by simp
  then have "replace_links ((delimiter e @ t @ delimiter e) @ s) =
             (delimiter e @ t @ delimiter e) @ replace_links s"
    by (rule replace_links_skip)
  then show ?thesis using Emph emph_level_ge2 [of e] by (simp add: span_at_def)
next
  case (Link t u)
  then have "replace_links (''['' @ t @ '']('' @ u @ '')'' @ s) = t @ replace_links s"
    using assms plain_chars [of t] url_chars [of u] by (intro replace_links_match) auto
  then show ?thesis using Link by (simp add: span_at_def)
next
  case (Image t u)
  then show ?thesis using assms plain_chars [of t] by (simp add: span_at_def replace_links_skip)
qed

lemma flat_wf: "flat doc \<Longrightarrow> a \<in> set doc \<Longrightarrow> wf_span a"
  by (induction doc rule: flat.induct) auto

lemma image_stage: "flat doc \<Longrightarrow> replace_images (doc_at 0 doc) = doc_at 1 doc"
proof (induction doc)
  case Nil
  then show ?case by (simp add: doc_at_Nil)
next
  case (Cons a doc)
  then have "wf_span a" "flat doc" using flat_wf by (cases doc; auto)+
  then show ?case using Cons.IH image_stage_span [of a "doc_at 0 doc"] by (simp add: doc_at_Cons)
qed

lemma link_stage: "flat doc \<Longrightarrow> replace_links (doc_at 1 doc) = doc_at 2 doc"
proof (induction doc)
  case Nil
  then show ?case by (simp add: doc_at_Nil)
next
  case (Cons a doc)
  then have "wf_span a" "flat doc" using flat_wf by (cases doc; auto)+
  then show ?case using Cons.IH link_stage_span [of a "doc_at 1 doc"] by (simp add: doc_at_Cons)
qed

lemma delimiters:
  "delimiter Star3 = ''***''" "delimiter Star2 = ''**''" "delimiter Star1 = ''*''"
  "delimiter Under3 = ''___''" "delimiter Under2 = ''__''" "delimiter Under1 = ''_''"
  "delimiter Code = ''`''" "delimiter Strike = ''~~''"
  by (simp_all add: delimiter_def numeral_3_eq_3 numeral_2_eq_2)

lemma stripMarkdown_render:
  assumes "flat doc"
  shows "stripMarkdown (render doc) = plain_text doc"
proof -
  have 0: "replace_images (render doc) = doc_at 1 doc"
    using image_stage [OF assms] by (simp add: doc_at_0)
  have 1: "replace_links (doc_at 1 doc) = doc_at 2 doc" using link_stage [OF assms] .
  have 2: "replace_delim ''***'' (doc_at 2 doc) = doc_at 3 doc"
    using emph_stage [OF assms, of Star3] by (simp add: delimiters numeral_3_eq_3 numeral_2_eq_2)
  have 3: "replace_delim ''**'' (doc_at 3 doc) = doc_at 4 doc"
    using emph_stage [OF assms, of Star2] by (simp add: delimiters eval_nat_numeral)
  have 4: "replace_delim ''*'' (doc_at 4 doc) = doc_at 5 doc"
    using emph_stage [OF assms, of Star1] by (simp add: delimiters eval_nat_numeral)
  have 5: "replace_delim ''___'' (doc_at 5 doc) = doc_at 6 doc"
    using emph_stage [OF assms, of Under3] by (simp add: delimiters eval_nat_numeral)
  have 6: "replace_delim ''__'' (doc_at 6 doc) = doc_at 7 doc"
    using emph_stage [OF assms, of Under2] by (simp add: delimiters eval_nat_numeral)
  have 7: "replace_delim ''_'' (doc_at 7 doc) = doc_at 8 doc"
    using emph_stage [OF assms, of Under1] by (simp add: delimiters eval_nat_numeral)
  have 8: "replace_delim ''`'' (doc_at 8 doc) = doc_at 9 doc"
    using emph_stage [OF assms, of Code] by (simp add: delimiters eval_nat_numeral)
  have 9: "replace_delim ''~~'' (doc_at 9 doc) = doc_at 10 doc"
    using emph_stage [OF assms, of Strike] by (simp add: delimiters eval_nat_numeral)
  show ?thesis
    unfolding stripMarkdown_def 0 1 2 3 4 5 6 7 8 9 by (rule doc_at_10)
qed

lemma stripMarkdown_plain:
  assumes "list_all (\<lambda>c. \<not> markup_char c) s"
  shows "stripMarkdown s = s"
proof -
  have n: "CHR ''!'' \<notin> set s" "CHR ''['' \<notin> set s" "CHR ''*'' \<notin> set s" "CHR ''_'' \<notin> set s"
    "CHR ''`'' \<notin> set s" "CHR ''~'' \<notin> set s"
    using assms by (auto simp: list_all_iff markup_char_def)
  have i: "replace_images s = s" using replace_images_skip [OF n(1), of "[]"] by simp
  have l: "replace_links s = s" using replace_links_skip [OF n(2), of "[]"] by simp
  have d: "\<And>x d. x \<notin> set s \<Longrightarrow> replace_delim (x # d) s = s"
    using replace_delim_skip [of _ s _ "[]"] by simp
  show ?thesis
    unfolding stripMarkdown_def i l using n by (simp add: d)
qed

lemma plain_text_plain: "flat doc \<Longrightarrow> list_all (\<lambda>c. \<not> markup_char c) (plain_text doc)"
proof (induction doc)
  case Nil
  then show ?case by (simp add: plain_text_def)
next
  case (Cons a doc)
  then have w: "wf_span a" and f: "flat doc" using flat_wf by (cases doc; auto)+
  from w have "list_all (\<lambda>c. \<not> markup_char c) (inner_text a)"
    by (cases a) (auto simp: plain_def)
  then show ?case using Cons.IH [OF f] by (simp add: plain_text_def)
qed

text \<open>
  C6, as the code has it. On the text of a flat document (plain runs, and spans that are
  not nested: images, links, and text between \<^verbatim>\<open>***\<close>, \<^verbatim>\<open>**\<close>, \<^verbatim>\<open>*\<close>,
  \<^verbatim>\<open>___\<close>, \<^verbatim>\<open>__\<close>, \<^verbatim>\<open>_\<close>, a backquote pair or \<^verbatim>\<open>~~\<close>; every text in them
  free of markup characters; no span right before one with the same delimiter character)
  \<^verbatim>\<open>stripMarkdown\<close> returns the plain runs and the inner texts, in order, and a second
  application changes nothing.
\<close>

theorem stripMarkdown_flat:
  assumes "flat doc"
  shows "stripMarkdown (render doc) = plain_text doc \<and>
         stripMarkdown (stripMarkdown (render doc)) = stripMarkdown (render doc)"
  using stripMarkdown_render [OF assms] stripMarkdown_plain [OF plain_text_plain [OF assms]]
  by simp

text \<open>The sample document: its text is stripped to its inner texts, and stays there.\<close>

theorem stripMarkdown_flat_witness:
  "flat sample_doc \<and>
   stripMarkdown (render sample_doc) =
     ''logo See the docs for both, bold, italic, bothbolditalic (or npm test) and removedx'' \<and>
   stripMarkdown (stripMarkdown (render sample_doc)) = stripMarkdown (render sample_doc)"
proof -
  have f: "flat sample_doc"
    by (simp add: sample_doc_def plain_def markup_char_def url_def line_terminator_def)
  have p: "plain_text sample_doc =
     ''logo See the docs for both, bold, italic, bothbolditalic (or npm test) and removedx''"
    by (simp add: sample_doc_def plain_text_def)
  have a: "stripMarkdown (render sample_doc) = plain_text sample_doc"
    using stripMarkdown_flat [OF f] by (rule conjunct1)
  have b: "stripMarkdown (stripMarkdown (render sample_doc)) = stripMarkdown (render sample_doc)"
    using stripMarkdown_flat [OF f] by (rule conjunct2)
  show ?thesis using f a [unfolded p] b by (intro conjI)
qed

text \<open>
  The claim as written fails: \<^verbatim>\<open>[a]*(b)*\<close> is the plain text \<^verbatim>\<open>[a]\<close> followed by one
  span between single stars, nothing is nested, and the first application builds the
  link that the second one strips.
\<close>

theorem stripMarkdown_flat_counterexample:
  "''[a]*(b)*'' = ''[a]'' @ render_span (Emph Star1 ''(b)'') \<and>
   stripMarkdown ''[a]*(b)*'' = ''[a](b)'' \<and>
   stripMarkdown (stripMarkdown ''[a]*(b)*'') = ''a'' \<and>
   stripMarkdown (stripMarkdown ''[a]*(b)*'') \<noteq> stripMarkdown ''[a]*(b)*''"
  by code_simp

section \<open>Descriptions from the body\<close>



lemma split_lines_no_newline: "l \<in> set (split_lines s) \<Longrightarrow> CHR 0x0A \<notin> set l"
proof (induction s arbitrary: l)
  case Nil
  then show ?case by simp
next
  case (Cons c s)
  then show ?case by (auto split: if_splits list.splits)
qed











lemma first_some_Some: "first_some f xs = Some y \<Longrightarrow> \<exists>x\<in>set xs. f x = Some y"
  by (induction xs) (auto split: option.splits)

lemma find_sub_sound: "find_sub p s = Some (a, r) \<Longrightarrow> s = a @ p @ r"
proof (induction s arbitrary: a)
  case Nil
  then show ?case by (auto split: if_splits)
next
  case (Cons c s)
  show ?case
  proof (cases "startsWith (c # s) p")
    case True
    then have "c # s = p @ drop (length p) (c # s)"
      by (metis append_take_drop_id startsWith_def)
    then show ?thesis using Cons.prems True by auto
  next
    case False
    then show ?thesis using Cons by (auto split: option.splits)
  qed
qed

lemma take_takeWhile_all:
  "j \<le> length (takeWhile P r) \<Longrightarrow> list_all P (take j r)"
  by (induction r arbitrary: j) (auto simp: take_Cons split: nat.splits if_splits)

lemma nth_split: "j < length r \<Longrightarrow> r ! j = c \<Longrightarrow> drop (Suc j) r = t \<Longrightarrow> r = take j r @ c # t"
  using id_take_nth_drop by blast

lemma frontmatterMatch_sound:
  assumes "frontmatterMatch cnt = Some (fm, rest)"
  shows "\<exists>ws. list_all is_space ws \<and> cnt = ''---'' @ ws @ ''\<newline>'' @ fm @ ''\<newline>---'' @ rest"
proof -
  let ?r = "drop 3 cnt"
  let ?w = "length (takeWhile is_space ?r)"
  from assms have sw: "startsWith cnt ''---''"
    by (auto simp: frontmatterMatch_def split: if_splits)
  then have "take 3 cnt = ''---''" by (simp add: startsWith_def numeral_3_eq_3)
  then have c: "cnt = ''---'' @ ?r" using append_take_drop_id [of 3 cnt] by simp
  from assms sw have
    "first_some (\<lambda>j. if ?r ! j = CHR 0x0A then find_sub ''\<newline>---'' (drop (Suc j) ?r) else None)
       (rev [0..<?w]) = Some (fm, rest)"
    by (simp add: frontmatterMatch_def Let_def)
  then have "\<exists>j\<in>set (rev [0..<?w]).
      (if ?r ! j = CHR 0x0A then find_sub ''\<newline>---'' (drop (Suc j) ?r) else None) = Some (fm, rest)"
    by (rule first_some_Some)
  then obtain j where j: "j \<in> set (rev [0..<?w])"
    and f: "(if ?r ! j = CHR 0x0A then find_sub ''\<newline>---'' (drop (Suc j) ?r) else None) = Some (fm, rest)"
    by blast
  from j have jw: "j < ?w" by simp
  then have jl: "j < length ?r" using length_takeWhile_le [of is_space ?r] by linarith
  from f have nl: "?r ! j = CHR 0x0A" and fs: "find_sub ''\<newline>---'' (drop (Suc j) ?r) = Some (fm, rest)"
    by (auto split: if_splits)
  have "?r = take j ?r @ CHR 0x0A # (fm @ ''\<newline>---'' @ rest)"
    using jl nl find_sub_sound [OF fs] by (rule nth_split)
  then have "''---'' @ ?r = ''---'' @ take j ?r @ ''\<newline>'' @ fm @ ''\<newline>---'' @ rest"
    by (simp only: append_Cons append_Nil)
  with c have e: "cnt = ''---'' @ take j ?r @ ''\<newline>'' @ fm @ ''\<newline>---'' @ rest"
    by (rule trans)
  have "list_all is_space (take j ?r)" using jw take_takeWhile_all [of j is_space ?r] by simp
  then show ?thesis using e by blast
qed

section \<open>Descriptions from the frontmatter\<close>

lemma find_sub_skip:
  "c \<notin> set a \<Longrightarrow>
   find_sub (c # p) (a @ s) = (case find_sub (c # p) s of None \<Rightarrow> None | Some (x, r) \<Rightarrow> Some (a @ x, r))"
  by (induction a) (auto simp: startsWith_Cons split: option.splits)

lemma find_sub_here: "find_sub (c # p) ((c # p) @ s) = Some ([], s)"
  by (simp add: startsWith_def)

lemma not_startsWith_line:
  assumes "\<not> startsWith l ''---''"
  shows "\<not> startsWith (l @ CHR 0x0A # t) ''---''"
proof (cases l)
  case Nil
  then show ?thesis by (simp add: startsWith_def)
next
  case l1: (Cons a l1)
  show ?thesis
  proof (cases l1)
    case Nil
    then show ?thesis using l1 by (simp add: startsWith_def)
  next
    case l2: (Cons b l2)
    show ?thesis
    proof (cases l2)
      case Nil
      then show ?thesis using l1 l2 by (simp add: startsWith_def)
    next
      case (Cons c l3)
      then show ?thesis using l1 l2 assms by (simp add: startsWith_def)
    qed
  qed
qed

lemma join_lines_Cons: "ls \<noteq> [] \<Longrightarrow> join_lines (l # ls) = l @ CHR 0x0A # join_lines ls"
  by (cases ls) simp_all

lemma find_sub_lines:
  assumes "ls \<noteq> []" and "\<forall>l\<in>set ls. CHR 0x0A \<notin> set l" and "\<forall>l\<in>set (tl ls). \<not> startsWith l ''---''"
  shows "find_sub ''\<newline>---'' (join_lines ls @ ''\<newline>---'' @ rest) = Some (join_lines ls, rest)"
  using assms
proof (induction ls)
  case Nil
  then show ?case by simp
next
  case (Cons l ls)
  have nl: "CHR 0x0A \<notin> set l" using Cons.prems by simp
  show ?case
  proof (cases ls)
    case Nil
    have "find_sub (CHR 0x0A # ''---'') (l @ (CHR 0x0A # ''---'') @ rest) = Some (l @ [], rest)"
      using find_sub_skip [OF nl, of "''---''" "(CHR 0x0A # ''---'') @ rest"]
        find_sub_here [of "CHR 0x0A" "''---''" rest]
      by simp
    then show ?thesis using Nil by simp
  next
    case (Cons l' ls')
    have ih: "find_sub ''\<newline>---'' (join_lines ls @ ''\<newline>---'' @ rest) = Some (join_lines ls, rest)"
      using Cons.IH Cons.prems Cons by auto
    have "\<not> startsWith l' ''---''" using Cons.prems(3) Cons by simp
    then have ns: "\<not> startsWith (join_lines ls @ ''\<newline>---'' @ rest) ''---''"
      using not_startsWith_line [of l'] Cons by (cases ls') auto
    have "find_sub ''\<newline>---'' (CHR 0x0A # (join_lines ls @ ''\<newline>---'' @ rest)) =
          Some (CHR 0x0A # join_lines ls, rest)"
      using ns ih by (simp add: startsWith_Cons)
    then have "find_sub (CHR 0x0A # ''---'') (l @ CHR 0x0A # (join_lines ls @ ''\<newline>---'' @ rest)) =
          Some (l @ CHR 0x0A # join_lines ls, rest)"
      using find_sub_skip [OF nl, of "''---''" "CHR 0x0A # (join_lines ls @ ''\<newline>---'' @ rest)"]
      by simp
    then show ?thesis using Cons by simp
  qed
qed

lemma takeWhile_spaces:
  assumes "list_all is_space ws" and "s = [] \<or> \<not> is_space (hd s)"
  shows "takeWhile is_space (ws @ s) = ws"
proof -
  have "takeWhile is_space s = []" using assms(2) by (cases s) auto
  then show ?thesis using assms(1) by (simp add: takeWhile_append2 list_all_iff)
qed

lemma join_lines_hd:
  assumes "ls \<noteq> []" and "hd ls \<noteq> []"
  shows "join_lines ls \<noteq> [] \<and> hd (join_lines ls) = hd (hd ls)"
proof (cases ls)
  case Nil
  then show ?thesis using assms by simp
next
  case (Cons l ls')
  then show ?thesis using assms by (cases ls') auto
qed

lemma frontmatterMatch_at:
  assumes "startsWith cnt ''---''" and "drop 3 cnt = r"
    and "length (takeWhile is_space r) = Suc n" and "r ! n = CHR 0x0A"
    and "find_sub ''\<newline>---'' (drop (Suc n) r) = Some res"
  shows "frontmatterMatch cnt = Some res"
  using assms by (simp add: frontmatterMatch_def Let_def)

lemma frontmatterMatch_lines:
  assumes "list_all is_space ws" and "ls \<noteq> []" and "hd ls \<noteq> []" and "\<not> is_space (hd (hd ls))"
    and "\<forall>l\<in>set ls. CHR 0x0A \<notin> set l" and "\<forall>l\<in>set (tl ls). \<not> startsWith l ''---''"
  shows "frontmatterMatch (''---'' @ ws @ ''\<newline>'' @ join_lines ls @ ''\<newline>---'' @ rest) =
         Some (join_lines ls, rest)"
proof -
  let ?J = "join_lines ls @ ''\<newline>---'' @ rest"
  let ?r = "(ws @ ''\<newline>'') @ ?J"
  have sp: "list_all is_space (ws @ ''\<newline>'')" using assms(1) by (simp add: is_space_def)
  have hd: "?J = [] \<or> \<not> is_space (hd ?J)"
    using join_lines_hd [OF assms(2,3)] assms(4) by simp
  have tw: "takeWhile is_space ?r = ws @ ''\<newline>''" using sp hd by (rule takeWhile_spaces)
  have w: "length (takeWhile is_space ?r) = Suc (length ws)" unfolding tw by simp
  have nth: "?r ! length ws = CHR 0x0A" by (simp add: nth_append)
  have dr: "drop (Suc (length ws)) ?r = ?J" by simp
  have fs: "find_sub ''\<newline>---'' ?J = Some (join_lines ls, rest)"
    using assms(2,5,6) by (rule find_sub_lines)
  have sw: "startsWith (''---'' @ ws @ ''\<newline>'' @ ?J) ''---''" by (simp add: startsWith_def)
  have d3: "drop 3 (''---'' @ ws @ ''\<newline>'' @ ?J) = ?r" by simp
  show ?thesis
    using sw d3 w nth by (rule frontmatterMatch_at) (simp only: dr fs)
qed

lemma not_startsWith_extend:
  assumes "\<not> startsWith l p" and "x \<notin> set p"
  shows "\<not> startsWith (l @ x # t) p"
proof
  assume "startsWith (l @ x # t) p"
  then have e: "take (length p) (l @ x # t) = p" by (simp add: startsWith_def)
  show False
  proof (cases "length p \<le> length l")
    case True
    then have "take (length p) l = p" using e by simp
    then show False using assms(1) by (simp add: startsWith_def)
  next
    case False
    then have lt: "length l < length p" by simp
    have "p ! length l = take (length p) (l @ x # t) ! length l" using e by simp
    also have "\<dots> = (l @ x # t) ! length l" using lt by (rule nth_take)
    also have "\<dots> = x" by simp
    finally have "p ! length l = x" .
    then have "x \<in> set p" using lt nth_mem by metis
    then show False using assms(2) by simp
  qed
qed

lemma match_description_skip_false:
  "\<forall>c\<in>set a. \<not> line_terminator c \<Longrightarrow>
   match_description False (a @ CHR 0x0A # s) = match_description True s"
  by (induction a) (simp_all add: line_terminator_def)

lemma match_description_skip_line:
  assumes "\<forall>c\<in>set l. \<not> line_terminator c" and "\<not> startsWith l ''description:''"
  shows "match_description True (l @ CHR 0x0A # s) = match_description True s"
proof (cases l)
  case Nil
  then show ?thesis by (simp add: startsWith_def line_terminator_def)
next
  case (Cons c l')
  have "\<not> startsWith (l @ CHR 0x0A # s) ''description:''"
    using assms(2) by (rule not_startsWith_extend) simp
  then have "match_description True (c # l' @ CHR 0x0A # s) =
             match_description (line_terminator c) (l' @ CHR 0x0A # s)"
    using Cons by simp
  moreover have "\<not> line_terminator c" and "\<forall>c\<in>set l'. \<not> line_terminator c"
    using assms(1) Cons by simp_all
  ultimately show ?thesis using Cons match_description_skip_false by simp
qed

lemma description_value_at:
  assumes "length (takeWhile is_space r) = n" and "n < length r" and "\<not> line_terminator (r ! n)"
  shows "description_value r = Some (takeWhile (\<lambda>c. \<not> line_terminator c) (drop n r))"
  using assms by (simp add: description_value_def Let_def)

lemma takeWhile_line:
  assumes "\<forall>c\<in>set v. \<not> line_terminator c" and "tail = [] \<or> line_terminator (hd tail)"
  shows "takeWhile (\<lambda>c. \<not> line_terminator c) (v @ tail) = v"
proof -
  have "takeWhile (\<lambda>c. \<not> line_terminator c) tail = []" using assms(2) by (cases tail) auto
  then show ?thesis using assms(1) by (simp add: takeWhile_append2)
qed

lemma match_description_here:
  assumes "list_all is_space sp" and "v \<noteq> []" and "\<not> is_space (hd v)"
    and "\<forall>c\<in>set v. \<not> line_terminator c" and "tail = [] \<or> line_terminator (hd tail)"
  shows "match_description True (''description:'' @ sp @ v @ tail) = Some v"
proof -
  let ?r = "sp @ (v @ tail)"
  have h: "v @ tail = [] \<or> \<not> is_space (hd (v @ tail))" using assms(2,3) by simp
  have tw: "takeWhile is_space ?r = sp" using assms(1) h by (rule takeWhile_spaces)
  then have n: "length (takeWhile is_space ?r) = length sp" by simp
  have lt: "length sp < length ?r" using assms(2) by simp
  have nth: "?r ! length sp = hd v" using assms(2) by (simp add: nth_append hd_conv_nth)
  have nlt: "\<not> line_terminator (?r ! length sp)"
    unfolding nth using assms(2,4) by (cases v) auto
  have "description_value ?r = Some (takeWhile (\<lambda>c. \<not> line_terminator c) (drop (length sp) ?r))"
    using n lt nlt by (rule description_value_at)
  moreover have "drop (length sp) ?r = v @ tail" by simp
  ultimately have dv: "description_value ?r = Some v"
    using takeWhile_line [OF assms(4,5)] by simp
  have sw: "startsWith (CHR ''d'' # ''escription:'' @ ?r) ''description:''"
    by (simp add: startsWith_def)
  have dr: "drop 12 (CHR ''d'' # ''escription:'' @ ?r) = ?r" by simp
  have "match_description True (CHR ''d'' # (''escription:'' @ ?r)) = Some v"
    unfolding match_description.simps using sw dr dv by (simp del: drop_Suc_Cons)
  then show ?thesis by simp
qed

lemma match_description_lines:
  assumes "\<forall>l\<in>set pre. (\<forall>c\<in>set l. \<not> line_terminator c) \<and> \<not> startsWith l ''description:''"
    and "list_all is_space sp" and "v \<noteq> []" and "\<not> is_space (hd v)"
    and "\<forall>c\<in>set v. \<not> line_terminator c"
  shows "match_description True (join_lines (pre @ (''description:'' @ sp @ v) # post)) = Some v"
  using assms(1)
proof (induction pre)
  case Nil
  show ?case
  proof (cases post)
    case Nil
    then show ?thesis using match_description_here [OF assms(2-5), of "[]"] by simp
  next
    case (Cons p post')
    have "match_description True (''description:'' @ sp @ v @ (CHR 0x0A # join_lines post)) = Some v"
      using assms(2-5) by (rule match_description_here) (simp add: line_terminator_def)
    then show ?thesis using Cons by (simp add: join_lines_Cons)
  qed
next
  case (Cons l pre)
  have "join_lines ((l # pre) @ (''description:'' @ sp @ v) # post) =
        l @ CHR 0x0A # join_lines (pre @ (''description:'' @ sp @ v) # post)"
    by (simp add: join_lines_Cons)
  then show ?case using Cons match_description_skip_line [of l] by simp
qed

lemma unquote_pair:
  assumes "q = CHR 0x22 \<or> q = CHR 0x27"
  shows "unquote (q # inner @ [q]) = inner"
proof -
  have "slice (q # inner @ [q]) 1 (- 1) = inner"
    by (simp add: slice_def slice_index_def Let_def)
  then show ?thesis using assms by (auto simp: unquote_def startsWith_def endsWith_def)
qed

lemma unquote_none:
  assumes "\<not> (startsWith d [CHR 0x22] \<and> endsWith d [CHR 0x22])"
    and "\<not> (startsWith d [CHR 0x27] \<and> endsWith d [CHR 0x27])"
  shows "unquote d = d"
  using assms by (auto simp: unquote_def)

text \<open>
  Where the frontmatter lookup does what it is meant to do. The content is three dashes,
  space characters, a line feed, the lines of the block, a line feed and three dashes;
  the first line of the block does not start with a space character, no later line starts
  with three dashes, and the first line that starts with \<^verbatim>\<open>description:\<close> goes on,
  after space characters, with a value \<open>v\<close> that is not empty. Then the result is the
  trimmed value, unquoted and stripped, whatever follows the block.
\<close>

lemma getSkillDescription_frontmatter:
  assumes "list_all is_space ws"
    and "ls = pre @ (''description:'' @ sp @ v) # post"
    and "\<forall>l\<in>set ls. \<forall>c\<in>set l. \<not> line_terminator c"
    and "hd ls \<noteq> []" and "\<not> is_space (hd (hd ls))"
    and "\<forall>l\<in>set (tl ls). \<not> startsWith l ''---''"
    and "\<forall>l\<in>set pre. \<not> startsWith l ''description:''"
    and "list_all is_space sp" and "v \<noteq> []" and "\<not> is_space (hd v)"
  shows "getSkillDescription (''---'' @ ws @ ''\<newline>'' @ join_lines ls @ ''\<newline>---'' @ rest) =
         Some (stripMarkdown (unquote (trim v)))"
proof -
  have ne: "ls \<noteq> []" using assms(2) by simp
  have nl: "\<forall>l\<in>set ls. CHR 0x0A \<notin> set l"
    using assms(3) by (auto simp: line_terminator_def)
  have fm: "frontmatterMatch (''---'' @ ws @ ''\<newline>'' @ join_lines ls @ ''\<newline>---'' @ rest) =
            Some (join_lines ls, rest)"
    using assms(1) ne assms(4,5) nl assms(6) by (rule frontmatterMatch_lines)
  have p: "\<forall>l\<in>set pre. (\<forall>c\<in>set l. \<not> line_terminator c) \<and> \<not> startsWith l ''description:''"
    using assms(2,3,7) by auto
  have vl: "\<forall>c\<in>set v. \<not> line_terminator c" using assms(2,3) by auto
  have md: "match_description True (join_lines ls) = Some v"
    unfolding assms(2) using p assms(8,9,10) vl by (rule match_description_lines)
  show ?thesis unfolding getSkillDescription_def fm using md by simp
qed

text \<open>A block with a name and a description in bold: the lemma above applies.\<close>

lemma getSkillDescription_frontmatter_example:
  "getSkillDescription
     ''---\<newline>name: test\<newline>description: A **bold** skill  \<newline>---\<newline>Body'' =
   Some ''A bold skill''"
proof -
  have s: "stripMarkdown (unquote (trim ''A **bold** skill  '')) = ''A bold skill''"
    by code_simp
  have j: "join_lines ([''name: test''] @ (''description:'' @ '' '' @ ''A **bold** skill  '') # []) =
           ''name: test\<newline>description: A **bold** skill  ''"
    by simp
  have "getSkillDescription
          (''---'' @ [] @ ''\<newline>'' @
           join_lines ([''name: test''] @ (''description:'' @ '' '' @ ''A **bold** skill  '') # []) @
           ''\<newline>---'' @ ''\<newline>Body'') =
        Some (stripMarkdown (unquote (trim ''A **bold** skill  '')))"
    by (rule getSkillDescription_frontmatter
        [where pre = "[''name: test'']" and post = "[]" and sp = "'' ''"
           and v = "''A **bold** skill  ''"])
      (simp_all add: is_space_def line_terminator_def startsWith_def)
  then show ?thesis unfolding s j by simp
qed

text \<open>
  C3 does not hold on the code. Its example does: the quoted description gives
  \<^verbatim>\<open>Quoted\<close>. But a description field with an empty value takes the next line of the
  block as its value (the \<^verbatim>\<open>\s*\<close> after the colon runs over the line feed), and a value
  that is one quote character alone is taken for a quoted pair and comes out empty.
\<close>

theorem getSkillDescription_frontmatter_slips:
  "getSkillDescription (''---\<newline>description: '' @ [CHR 0x22] @ ''Quoted'' @ [CHR 0x22] @ ''\<newline>---\<newline>Body'') =
     Some ''Quoted'' \<and>
   getSkillDescription ''---\<newline>description:\<newline>name: x\<newline>---\<newline>Body'' = Some ''name: x'' \<and>
   getSkillDescription (''---\<newline>description: '' @ [CHR 0x22] @ ''\<newline>---\<newline>Body'') = Some []"
  by code_simp

section \<open>The body of a content without a description field\<close>





lemma join_split_lines: "join_lines (split_lines s) = s"
proof (induction s)
  case Nil
  then show ?case by simp
next
  case (Cons c s)
  show ?case
  proof (cases "c = CHR 0x0A")
    case True
    have "split_lines s \<noteq> []" by (cases s) (auto split: list.splits)
    then show ?thesis using True Cons by (simp add: join_lines_Cons)
  next
    case False
    then show ?thesis using Cons
      by (cases "split_lines s"; cases "tl (split_lines s)") (auto split: list.splits)
  qed
qed















lemma no_frontmatter_no_dashes: "\<not> startsWith cnt ''---'' \<Longrightarrow> no_frontmatter cnt"
  by (simp add: no_frontmatter_def)







section \<open>Candidate construction\<close>

lemma fold_push_trigger:
  "fold (\<lambda>trigger acc. acc @ [\<lparr>skill = sk, command = trigger\<rparr>]) ts items =
   items @ map (\<lambda>t. \<lparr>skill = sk, command = t\<rparr>) ts"
  by (induction ts arbitrary: items) simp_all

lemma push_skill_append: "push_skill sk items = items @ candidates_of sk"
  by (simp add: push_skill_def candidates_of_def Let_def fold_push_trigger)

lemma fold_push_skill: "fold push_skill sks items = items @ concat (map candidates_of sks)"
  by (induction sks arbitrary: items) (simp_all add: push_skill_append)

lemma candidates_of_slash: "it \<in> set (candidates_of sk) \<Longrightarrow> \<exists>r. command it = CHR ''/'' # r"
  by (auto simp: candidates_of_def Let_def startsWith_iff split: if_splits)

text \<open>
  C4. The candidate list is the concatenation, in the order of the skills, of what each
  skill contributes: its slash triggers in their order when it has any, the synthesized
  \<^verbatim>\<open>/name\<close> when it has none and its type is \<^verbatim>\<open>agentskills\<close>, and nothing
  otherwise; without skills the list is empty. The skills \<^verbatim>\<open>a\<close> (trigger
  \<^verbatim>\<open>/a\<close>) and \<^verbatim>\<open>b\<close> (type \<^verbatim>\<open>agentskills\<close>, no trigger) give
  \<^verbatim>\<open>/a\<close> for \<^verbatim>\<open>a\<close> and \<^verbatim>\<open>/b\<close> for \<^verbatim>\<open>b\<close>.
\<close>

theorem slashItems_candidates:
  "slashItems None = [] \<and>
   slashItems (Some sks) = concat (map candidates_of sks) \<and>
   slashItems (Some [skill_a, skill_b]) =
     [\<lparr>skill = skill_a, command = ''/a''\<rparr>, \<lparr>skill = skill_b, command = ''/b''\<rparr>]"
proof -
  have gen: "\<And>xs. slashItems (Some xs) = concat (map candidates_of xs)"
    by (simp add: slashItems_def fold_push_skill)
  have ex: "concat (map candidates_of [skill_a, skill_b]) =
     [\<lparr>skill = skill_a, command = ''/a''\<rparr>, \<lparr>skill = skill_b, command = ''/b''\<rparr>]"
    by (simp add: candidates_of_def skill_a_def skill_b_def startsWith_def)
  have none: "slashItems None = []" by (simp add: slashItems_def)
  show ?thesis using none gen ex by simp
qed

section \<open>Filtering\<close>

lemma toLowerChar_capital:
  "toLowerChar c = (if capital_code (of_char c) then char_of (of_char c + 32 :: nat) else c)"
  by (simp add: toLowerChar_def Let_def capital_code_def)

lemma of_char_toLowerChar:
  "(of_char (toLowerChar c) :: nat) =
     (if capital_code (of_char c) then of_char c + 32 else of_char c)"
proof (cases "capital_code (of_char c)")
  case True
  then have "(of_char c :: nat) + 32 < 256" by (auto simp: capital_code_def)
  then have "((of_char c :: nat) + 32) mod 256 = of_char c + 32" by simp
  then show ?thesis using True by (simp add: toLowerChar_capital)
next
  case False
  then show ?thesis by (simp add: toLowerChar_capital)
qed

lemma toLowerChar_eq_iff: "toLowerChar c = toLowerChar d \<longleftrightarrow> same_letter c d"
proof -
  have "toLowerChar c = toLowerChar d \<longleftrightarrow>
        (of_char (toLowerChar c) :: nat) = of_char (toLowerChar d)"
    by simp
  also have "\<dots> \<longleftrightarrow> (of_char c :: nat) = of_char d \<or>
      (capital_code (of_char c) \<and> (of_char d :: nat) = of_char c + 32) \<or>
      (capital_code (of_char d) \<and> (of_char c :: nat) = of_char d + 32)"
    unfolding of_char_toLowerChar by (auto simp: capital_code_def)
  also have "\<dots> \<longleftrightarrow> same_letter c d"
    by (simp add: same_letter_def small_of_def)
  finally show ?thesis .
qed

lemma toLowerCase_eq_iff: "toLowerCase s = toLowerCase f \<longleftrightarrow> list_all2 same_letter s f"
proof (induction s arbitrary: f)
  case Nil
  then show ?case by (auto simp: toLowerCase_def)
next
  case (Cons c s)
  then show ?case
    by (cases f) (auto simp: toLowerCase_def toLowerChar_eq_iff)
qed

lemma contains_ci_iff:
  "contains_ci s f \<longleftrightarrow> (\<exists>pre post. toLowerCase s = pre @ toLowerCase f @ post)"
proof
  assume "contains_ci s f"
  then obtain pre mid post where s: "s = pre @ mid @ post" and m: "list_all2 same_letter mid f"
    by (auto simp: contains_ci_def)
  from m have "toLowerCase mid = toLowerCase f" by (simp add: toLowerCase_eq_iff)
  then have "toLowerCase s = toLowerCase pre @ toLowerCase f @ toLowerCase post"
    unfolding s by (simp add: toLowerCase_def)
  then show "\<exists>pre post. toLowerCase s = pre @ toLowerCase f @ post" by blast
next
  assume "\<exists>pre post. toLowerCase s = pre @ toLowerCase f @ post"
  then obtain a b where "map toLowerChar s = a @ map toLowerChar f @ b"
    by (auto simp: toLowerCase_def)
  then have "\<exists>pre r. s = pre @ r \<and> a = map toLowerChar pre \<and>
                 map toLowerChar f @ b = map toLowerChar r"
    by (simp only: map_eq_append_conv)
  then obtain pre r where s1: "s = pre @ r" and r: "map toLowerChar f @ b = map toLowerChar r"
    by blast
  from r have "\<exists>mid post. r = mid @ post \<and> map toLowerChar f = map toLowerChar mid \<and>
                 b = map toLowerChar post"
    by (simp only: append_eq_map_conv)
  then obtain mid post where s2: "r = mid @ post" and m: "map toLowerChar mid = map toLowerChar f"
    by metis
  from m have "list_all2 same_letter mid f"
    using toLowerCase_eq_iff [of mid f] by (simp add: toLowerCase_def)
  then show "contains_ci s f" using s1 s2 by (auto simp: contains_ci_def)
qed

lemma same_letter_alphabet:
  "list_all2 same_letter ''ABCDEFGHIJKLMNOPQRSTUVWXYZ'' ''abcdefghijklmnopqrstuvwxyz''"
  by (simp add: same_letter_def small_of_def capital_code_def)

lemma contains_ciI: "s = pre @ mid @ post \<Longrightarrow> list_all2 same_letter mid f \<Longrightarrow> contains_ci s f"
  unfolding contains_ci_def by blast

text \<open>
  C5. The empty filter text keeps the whole candidate list. A non-empty filter text \<open>f\<close>
  keeps, in their order, exactly the candidates whose command without its first character
  contains \<open>f\<close> case-insensitively, or whose skill name does. The first character of the
  command of every built candidate is the slash.
\<close>

theorem filteredItems_contains:
  "filteredItems items [] = items \<and>
   (f \<noteq> [] \<longrightarrow>
      filteredItems items f =
        filter (\<lambda>it. contains_ci (drop 1 (command it)) f \<or> contains_ci (name (skill it)) f) items) \<and>
   (\<forall>it \<in> set (slashItems sks). command it = CHR ''/'' # drop 1 (command it))"
proof -
  have a: "filteredItems items [] = items" by (simp add: filteredItems_def)
  have b: "f \<noteq> [] \<Longrightarrow> filteredItems items f =
        filter (\<lambda>it. contains_ci (drop 1 (command it)) f \<or> contains_ci (name (skill it)) f) items"
    by (simp add: filteredItems_def Let_def js_includes_iff contains_ci_iff slice_from_1)
  have c: "\<forall>it \<in> set (slashItems sks). command it = CHR ''/'' # drop 1 (command it)"
  proof (cases sks)
    case None
    then show ?thesis by (simp add: slashItems_def)
  next
    case (Some xs)
    then have "slashItems sks = concat (map candidates_of xs)"
      by (simp add: slashItems_def fold_push_skill)
    then show ?thesis using candidates_of_slash by fastforce
  qed
  show ?thesis using a b c by blast
qed

text \<open>
  Three candidates in mixed case: \<^verbatim>\<open>RA\<close> is found in \<^verbatim>\<open>/random-number\<close> (and in the name
  \<^verbatim>\<open>RandomNumber\<close>) only, \<^verbatim>\<open>code\<close> in \<^verbatim>\<open>/Code-Search\<close> only, \<^verbatim>\<open>iNi\<close> in the name
  \<^verbatim>\<open>INIT\<close> only, the slash in none, and the empty filter keeps all three; the example of
  the specification.
\<close>

theorem filteredItems_contains_witness:
  "''RA'' \<noteq> [] \<and>
   filteredItems mixed_items ''RA'' =
     filter (\<lambda>it. contains_ci (drop 1 (command it)) ''RA'' \<or> contains_ci (name (skill it)) ''RA'')
       mixed_items \<and>
   contains_ci ''random-number'' ''RA'' \<and> contains_ci ''RandomNumber'' ''RA'' \<and>
   \<not> contains_ci ''Code-Search'' ''RA'' \<and> \<not> contains_ci ''find'' ''RA'' \<and>
   \<not> contains_ci ''go'' ''RA'' \<and> \<not> contains_ci ''INIT'' ''RA'' \<and>
   filteredItems mixed_items ''RA'' = [item_named ''RandomNumber'' ''/random-number''] \<and>
   filteredItems mixed_items ''code'' = [item_named ''find'' ''/Code-Search''] \<and>
   filteredItems mixed_items ''iNi'' = [item_named ''INIT'' ''/go''] \<and>
   filteredItems mixed_items ''/'' = [] \<and>
   filteredItems mixed_items [] = mixed_items \<and>
   filteredItems [item_of ''random-number'', item_of ''code-search''] ''ra'' =
     [item_of ''random-number'']"
proof -
  have ne: "''RA'' \<noteq> []" "''code'' \<noteq> []" "''iNi'' \<noteq> []" "''/'' \<noteq> []" "''ra'' \<noteq> []" by simp_all
  note th = filteredItems_contains [of mixed_items _ None]
  have f1: "filteredItems mixed_items ''RA'' =
     filter (\<lambda>it. contains_ci (drop 1 (command it)) ''RA'' \<or> contains_ci (name (skill it)) ''RA'')
       mixed_items"
    using th [of "''RA''"] ne by blast
  have p1: "contains_ci ''random-number'' ''RA''"
    by (rule contains_ciI [where pre = "[]" and mid = "''ra''" and post = "''ndom-number''"])
      (simp_all add: same_letter_def small_of_def capital_code_def)
  have p2: "contains_ci ''RandomNumber'' ''RA''"
    by (rule contains_ciI [where pre = "[]" and mid = "''Ra''" and post = "''ndomNumber''"])
      (simp_all add: same_letter_def small_of_def capital_code_def)
  have n1: "\<not> contains_ci ''Code-Search'' ''RA''" unfolding contains_ci_iff js_includes_iff [symmetric] by code_simp
  have n2: "\<not> contains_ci ''find'' ''RA''" unfolding contains_ci_iff js_includes_iff [symmetric] by code_simp
  have n3: "\<not> contains_ci ''go'' ''RA''" unfolding contains_ci_iff js_includes_iff [symmetric] by code_simp
  have n4: "\<not> contains_ci ''INIT'' ''RA''" unfolding contains_ci_iff js_includes_iff [symmetric] by code_simp
  have r1: "filteredItems mixed_items ''RA'' = [item_named ''RandomNumber'' ''/random-number'']"
    unfolding f1 using p1 n1 n2 n3 n4 by (simp add: mixed_items_def item_named_def)
  have p3: "contains_ci ''Code-Search'' ''code''"
    by (rule contains_ciI [where pre = "[]" and mid = "''Code''" and post = "''-Search''"])
      (simp_all add: same_letter_def small_of_def capital_code_def)
  have n5: "\<not> contains_ci ''random-number'' ''code''" unfolding contains_ci_iff js_includes_iff [symmetric] by code_simp
  have n6: "\<not> contains_ci ''RandomNumber'' ''code''" unfolding contains_ci_iff js_includes_iff [symmetric] by code_simp
  have n7: "\<not> contains_ci ''go'' ''code''" unfolding contains_ci_iff js_includes_iff [symmetric] by code_simp
  have n8: "\<not> contains_ci ''INIT'' ''code''" unfolding contains_ci_iff js_includes_iff [symmetric] by code_simp
  have r2: "filteredItems mixed_items ''code'' = [item_named ''find'' ''/Code-Search'']"
    using th [of "''code''"] ne p3 n5 n6 n7 n8 by (simp add: mixed_items_def item_named_def)
  have p4: "contains_ci ''INIT'' ''iNi''"
    by (rule contains_ciI [where pre = "[]" and mid = "''INI''" and post = "''T''"])
      (simp_all add: same_letter_def small_of_def capital_code_def)
  have m1: "\<not> contains_ci ''random-number'' ''iNi''" unfolding contains_ci_iff js_includes_iff [symmetric] by code_simp
  have m2: "\<not> contains_ci ''RandomNumber'' ''iNi''" unfolding contains_ci_iff js_includes_iff [symmetric] by code_simp
  have m3: "\<not> contains_ci ''Code-Search'' ''iNi''" unfolding contains_ci_iff js_includes_iff [symmetric] by code_simp
  have m4: "\<not> contains_ci ''find'' ''iNi''" unfolding contains_ci_iff js_includes_iff [symmetric] by code_simp
  have r3: "filteredItems mixed_items ''iNi'' = [item_named ''INIT'' ''/go'']"
    using th [of "''iNi''"] ne p4 m1 m2 m3 m4 by (simp add: mixed_items_def item_named_def)
  have r4: "filteredItems mixed_items ''/'' = []" by code_simp
  have r5: "filteredItems mixed_items [] = mixed_items" using th by blast
  have r6: "filteredItems [item_of ''random-number'', item_of ''code-search''] ''ra'' =
     [item_of ''random-number'']" by code_simp
  show ?thesis using ne f1 p1 p2 n1 n2 n3 n4 r1 r2 r3 r4 r5 r6 by blast
qed

section \<open>Keyboard navigation\<close>

text \<open>
  C7. While the menu is open over \<open>n \<ge> 1\<close> filtered candidates and the highlighted index
  is \<open>i\<close>: ArrowDown sets it to \<open>i + 1\<close> when \<open>i < n - 1\<close> and to \<open>0\<close> when
  \<open>i = n - 1\<close>; ArrowUp sets it to \<open>i - 1\<close> when \<open>i > 0\<close> and to \<open>n - 1\<close> when
  \<open>i = 0\<close>; nothing else changes, the handler returns true and the default action is
  prevented; the render that follows leaves the new index in place.
\<close>

theorem arrow_keys_wrap:
  assumes "isMenuOpen h" and "n = length (filteredItems (slashItems (skills h)) (filterText h))"
    and "n \<ge> 1" and "i = selectedIndex h"
  shows "(i < n - 1 \<longrightarrow> handleSlashKeyDown ''ArrowDown'' h = (h\<lparr>selectedIndex := i + 1\<rparr>, True, True)) \<and>
         (i = n - 1 \<longrightarrow> handleSlashKeyDown ''ArrowDown'' h = (h\<lparr>selectedIndex := 0\<rparr>, True, True)) \<and>
         (i > 0 \<longrightarrow> handleSlashKeyDown ''ArrowUp'' h = (h\<lparr>selectedIndex := i - 1\<rparr>, True, True)) \<and>
         (i = 0 \<longrightarrow> handleSlashKeyDown ''ArrowUp'' h = (h\<lparr>selectedIndex := n - 1\<rparr>, True, True)) \<and>
         dispatch (KeyDown ''ArrowDown'') h = fst (handleSlashKeyDown ''ArrowDown'' h) \<and>
         dispatch (KeyDown ''ArrowUp'') h = fst (handleSlashKeyDown ''ArrowUp'' h)"
proof -
  from assms have ne: "filteredItems (slashItems (skills h)) (filterText h) \<noteq> []" by auto
  show ?thesis
    using assms ne by (simp add: handleSlashKeyDown_def Let_def dispatch_def resetEffect_def)
qed

text \<open>
  C8. While the menu is open over at least one filtered candidate: ArrowLeft, ArrowRight,
  Home and End close the menu, change nothing else, and are not consumed (the handler
  returns false and does not prevent the default action); a key that is none of these
  four and none of ArrowDown, ArrowUp, Enter, Tab and Escape changes nothing and is not
  consumed.
\<close>

theorem cursor_keys_close:
  assumes "isMenuOpen h" and "length (filteredItems (slashItems (skills h)) (filterText h)) \<ge> 1"
  shows "(cursor_key k \<longrightarrow>
            handleSlashKeyDown k h = (h\<lparr>isMenuOpen := False\<rparr>, False, False) \<and>
            dispatch (KeyDown k) h = h\<lparr>isMenuOpen := False\<rparr>) \<and>
         (\<not> cursor_key k \<and> \<not> menu_key k \<longrightarrow>
            handleSlashKeyDown k h = (h, False, False) \<and> dispatch (KeyDown k) h = h)"
proof -
  from assms have ne: "filteredItems (slashItems (skills h)) (filterText h) \<noteq> []" by auto
  show ?thesis
    using assms ne
    by (auto simp: handleSlashKeyDown_def Let_def dispatch_def resetEffect_def cursor_key_def
        menu_key_def)
qed

lemma hook_items:
  "slashItems (skills (hook_on t k ft i r)) =
     [item_of ''random-number'', item_of ''code-search'', item_of ''foobar'']"
  by (simp add: hook_on_def slashItems_def push_skill_def item_of_def startsWith_def)

lemma hook_shown_all:
  "length (filteredItems (slashItems (skills (hook_on t k [] i r))) (filterText (hook_on t k [] i r))) = 3"
  by (simp add: hook_on_def slashItems_def push_skill_def item_of_def startsWith_def filteredItems_def)

text \<open>With three candidates shown: down from 0 to 1 and from 2 to 0, up from 2 to 1 and from 0 to 2.\<close>

theorem arrow_keys_wrap_witness:
  "handleSlashKeyDown ''ArrowDown'' (hook_on ''/'' 1 [] 0 (Some (0, 1))) =
     (hook_on ''/'' 1 [] 1 (Some (0, 1)), True, True) \<and>
   handleSlashKeyDown ''ArrowDown'' (hook_on ''/'' 1 [] 2 (Some (0, 1))) =
     (hook_on ''/'' 1 [] 0 (Some (0, 1)), True, True) \<and>
   handleSlashKeyDown ''ArrowUp'' (hook_on ''/'' 1 [] 2 (Some (0, 1))) =
     (hook_on ''/'' 1 [] 1 (Some (0, 1)), True, True) \<and>
   handleSlashKeyDown ''ArrowUp'' (hook_on ''/'' 1 [] 0 (Some (0, 1))) =
     (hook_on ''/'' 1 [] 2 (Some (0, 1)), True, True)"
proof -
  have o: "\<And>i. isMenuOpen (hook_on ''/'' 1 [] i (Some (0, 1)))" by (simp add: hook_on_def)
  have s: "\<And>i. selectedIndex (hook_on ''/'' 1 [] i (Some (0, 1))) = i" by (simp add: hook_on_def)
  have u: "\<And>i j. (hook_on ''/'' 1 [] i (Some (0, 1)))\<lparr>selectedIndex := j\<rparr> =
                  hook_on ''/'' 1 [] j (Some (0, 1))"
    by (simp add: hook_on_def)
  note a = arrow_keys_wrap [OF o hook_shown_all [symmetric] _ s [symmetric], simplified u]
  show ?thesis using a [of 0] a [of 2] by simp
qed

text \<open>ArrowLeft closes the open menu unconsumed; the key \<^verbatim>\<open>a\<close> does nothing.\<close>

theorem cursor_keys_close_witness:
  "cursor_key ''ArrowLeft'' \<and>
   handleSlashKeyDown ''ArrowLeft'' (hook_on ''/'' 1 [] 0 (Some (0, 1))) =
     ((hook_on ''/'' 1 [] 0 (Some (0, 1)))\<lparr>isMenuOpen := False\<rparr>, False, False) \<and>
   \<not> cursor_key ''a'' \<and> \<not> menu_key ''a'' \<and>
   handleSlashKeyDown ''a'' (hook_on ''/'' 1 [] 0 (Some (0, 1))) =
     (hook_on ''/'' 1 [] 0 (Some (0, 1)), False, False)"
proof -
  have o: "isMenuOpen (hook_on ''/'' 1 [] 0 (Some (0, 1)))" by (simp add: hook_on_def)
  have n: "length (filteredItems (slashItems (skills (hook_on ''/'' 1 [] 0 (Some (0, 1)))))
             (filterText (hook_on ''/'' 1 [] 0 (Some (0, 1))))) \<ge> 1"
    by (simp add: hook_shown_all)
  have k1: "cursor_key ''ArrowLeft''" by (simp add: cursor_key_def)
  have k2: "\<not> cursor_key ''a'' \<and> \<not> menu_key ''a''" by (simp add: cursor_key_def menu_key_def)
  show ?thesis
    using k1 k2 cursor_keys_close [OF o n, of "''ArrowLeft''"] cursor_keys_close [OF o n, of "''a''"]
    by simp
qed

section \<open>Opening the menu\<close>

lemma filterText_resetEffect: "filterText (resetEffect b a) = filterText a"
  by (simp add: resetEffect_def)

text \<open>
  C9. \<^verbatim>\<open>updateSlashMenu\<close> opens the menu exactly when a slash word is detected at the
  caret and the unfiltered candidate list is not empty, whatever the filter text, and the
  render that follows keeps that flag. So when a slash word is detected, the candidate
  list is not empty and no candidate matches the detected filter text, the menu is open,
  the filtered list is empty, and the keyboard handler consumes no key and changes
  nothing.
\<close>

theorem menu_open_ignores_filter:
  "isMenuOpen (updateSlashMenu h) = (getSlashText (chatInput h) \<noteq> None \<and> slashItems (skills h) \<noteq> []) \<and>
   isMenuOpen (dispatch UpdateSlashMenu h) = isMenuOpen (updateSlashMenu h) \<and>
   (getSlashText (chatInput h) = Some (txt, start, end_pos) \<and> slashItems (skills h) \<noteq> [] \<and>
    filteredItems (slashItems (skills h)) txt = [] \<longrightarrow>
      isMenuOpen (dispatch UpdateSlashMenu h) \<and>
      filterText (dispatch UpdateSlashMenu h) = txt \<and>
      filteredItems (slashItems (skills (dispatch UpdateSlashMenu h)))
        (filterText (dispatch UpdateSlashMenu h)) = [] \<and>
      (\<forall>key. handleSlashKeyDown key (dispatch UpdateSlashMenu h) =
              (dispatch UpdateSlashMenu h, False, False)))"
  by (auto simp: updateSlashMenu_def dispatch_def resetEffect_def handleSlashKeyDown_def Let_def
      split: option.splits prod.splits)

text \<open>
  The text \<^verbatim>\<open>say /zzz\<close> with the caret at its end: the slash word is detected, none of
  the three candidates matches \<^verbatim>\<open>zzz\<close>, the menu is open and Enter is not consumed.
\<close>

theorem menu_open_ignores_filter_witness:
  "getSlashText (chatInput (hook_on ''say /zzz'' 8 [] 0 None)) = Some (''zzz'', 4, 8) \<and>
   slashItems (skills (hook_on ''say /zzz'' 8 [] 0 None)) \<noteq> [] \<and>
   filteredItems (slashItems (skills (hook_on ''say /zzz'' 8 [] 0 None))) ''zzz'' = [] \<and>
   isMenuOpen (dispatch UpdateSlashMenu (hook_on ''say /zzz'' 8 [] 0 None)) \<and>
   filterText (dispatch UpdateSlashMenu (hook_on ''say /zzz'' 8 [] 0 None)) = ''zzz'' \<and>
   handleSlashKeyDown ''Enter'' (dispatch UpdateSlashMenu (hook_on ''say /zzz'' 8 [] 0 None)) =
     (dispatch UpdateSlashMenu (hook_on ''say /zzz'' 8 [] 0 None), False, False)"
proof -
  have g: "getSlashText (chatInput (hook_on ''say /zzz'' 8 [] 0 None)) = Some (''zzz'', 4, 8)"
    by code_simp
  have n: "slashItems (skills (hook_on ''say /zzz'' 8 [] 0 None)) \<noteq> []"
    by (simp add: hook_items)
  have f: "filteredItems (slashItems (skills (hook_on ''say /zzz'' 8 [] 0 None))) ''zzz'' = []"
    unfolding hook_items by code_simp
  show ?thesis
    using g n f menu_open_ignores_filter [of "hook_on ''say /zzz'' 8 [] 0 None" "''zzz''" 4 8]
    by blast
qed

section \<open>The highlighted index after a change of the filter text\<close>

text \<open>
  C10. Whatever the event, when the filter text after it (callback, render and effect)
  differs from the filter text before it, the highlighted index is 0, hence within any
  non-empty filtered candidate list.
\<close>

theorem filter_change_resets_index:
  assumes "filterText (dispatch ev h) \<noteq> filterText h"
  shows "selectedIndex (dispatch ev h) = 0 \<and>
         (filteredItems (slashItems (skills (dispatch ev h))) (filterText (dispatch ev h)) \<noteq> [] \<longrightarrow>
          selectedIndex (dispatch ev h) <
            length (filteredItems (slashItems (skills (dispatch ev h))) (filterText (dispatch ev h))))"
proof -
  from assms have "filterText (callback ev h) \<noteq> filterText h"
    by (simp add: dispatch_def filterText_resetEffect)
  then have "selectedIndex (dispatch ev h) = 0"
    by (simp add: dispatch_def resetEffect_def)
  then show ?thesis by simp
qed

text \<open>
  Typing \<^verbatim>\<open>c\<close> after the slash while the third candidate is highlighted: the filter
  text becomes \<^verbatim>\<open>c\<close>, the index goes from 2 to 0, and one candidate is shown.
\<close>

theorem filter_change_resets_index_witness:
  "filterText (dispatch UpdateSlashMenu (hook_on ''/c'' 2 [] 2 (Some (0, 1)))) = ''c'' \<and>
   selectedIndex (hook_on ''/c'' 2 [] 2 (Some (0, 1))) = 2 \<and>
   selectedIndex (dispatch UpdateSlashMenu (hook_on ''/c'' 2 [] 2 (Some (0, 1)))) = 0 \<and>
   filteredItems (slashItems (skills (dispatch UpdateSlashMenu (hook_on ''/c'' 2 [] 2 (Some (0, 1))))))
     ''c'' = [item_of ''code-search'']"
proof -
  have d: "dispatch UpdateSlashMenu (hook_on ''/c'' 2 [] 2 (Some (0, 1))) =
           hook_on ''/c'' 2 ''c'' 0 (Some (0, 2))"
    by code_simp
  have ft: "filterText (dispatch UpdateSlashMenu (hook_on ''/c'' 2 [] 2 (Some (0, 1)))) \<noteq>
            filterText (hook_on ''/c'' 2 [] 2 (Some (0, 1)))"
    unfolding d by (simp add: hook_on_def)
  have fi: "filteredItems [item_of ''random-number'', item_of ''code-search'', item_of ''foobar'']
              ''c'' = [item_of ''code-search'']"
    by code_simp
  show ?thesis
    using filter_change_resets_index [OF ft] fi
    by (simp add: d hook_items) (simp add: hook_on_def)
qed

section \<open>Committing a candidate\<close>

text \<open>
  A range that \<^verbatim>\<open>getSlashText\<close> returns starts within the text it read, not after its
  end, and never below 0.
\<close>

lemma match_space_slash_suffix: "match_space_slash tb = Some w \<Longrightarrow> \<exists>pre. tb = pre @ w"
proof (induction tb)
  case Nil
  then show ?case by simp
next
  case (Cons c tb)
  show ?case
  proof (cases "is_space c \<and> slash_word tb")
    case True
    then have "w = tb" using Cons.prems by simp
    then have "c # tb = [c] @ w" by simp
    then show ?thesis by blast
  next
    case False
    then have "match_space_slash tb = Some w" using Cons.prems by auto
    then obtain pre where "tb = pre @ w" using Cons.IH by blast
    then have "c # tb = (c # pre) @ w" by simp
    then show ?thesis by blast
  qed
qed

lemma match_slash_suffix: "match_slash tb = Some w \<Longrightarrow> \<exists>pre. tb = pre @ w"
  using match_space_slash_suffix by (fastforce simp: match_slash_def split: if_splits)

lemma getSlashText_range:
  assumes "getSlashText (Some el) = Some (ft, start, end_pos)"
  shows "0 \<le> start \<and> start \<le> end_pos \<and>
         start \<le> int (length (strip_trailing_newlines (innerText el)))"
proof -
  let ?t = "strip_trailing_newlines (innerText el)"
  let ?c = "getCursorOffset el"
  from assms have c: "0 \<le> ?c"
    by (auto simp: getSlashText_def Let_def split: if_splits)
  let ?tb = "slice ?t 0 ?c"
  from assms c obtain w where m: "match_slash ?tb = Some w"
    and s: "start = int (length ?tb) - int (length w)"
    and e: "end_pos = ?c + int (length (takeWhile (\<lambda>x. \<not> is_space x) (slice_from ?t ?c)))"
    by (auto simp: getSlashText_def Let_def split: if_splits option.splits)
  from m obtain pre where "?tb = pre @ w" using match_slash_suffix by blast
  then have "length ?tb = length pre + length w" by (metis length_append)
  then have wl: "length w \<le> length ?tb" by simp
  have tb: "?tb = take (nat ?c) ?t" using c by (rule slice_0_nonneg)
  have l1: "int (length ?tb) \<le> ?c" unfolding tb using c by simp
  have l2: "length ?tb \<le> length ?t" unfolding tb by simp
  show ?thesis using s e wl l1 l2 by simp
qed

text \<open>
  C1, as the code has it. Let \<open>t\<close> be the surface text without its trailing line feeds and
  carriage returns, and \<open>[start, end)\<close> a recorded range that starts within \<open>t\<close>.
  Committing a candidate with command \<open>c\<close> writes \<open>t[0..start) + c + " " + t[end..)\<close>
  and puts the caret right after the inserted space, at \<open>start + |c| + 1\<close>.
\<close>

theorem selectItem_splice:
  assumes "chatInput h = Some el" and "slashRange h = Some (start, end_pos)"
    and "t = strip_trailing_newlines (innerText el)"
    and "0 \<le> start" and "start \<le> end_pos" and "start \<le> int (length t)"
  shows "\<exists>el'. chatInput (selectItem item h) = Some el' \<and>
           innerText el' = take (nat start) t @ command item @ '' '' @ drop (nat end_pos) t \<and>
           caret el' = Some (nat start + length (command item) + 1) \<and>
           take (nat start + length (command item) + 1) (innerText el') =
             take (nat start) t @ command item @ '' ''"
proof -
  have l: "length (take (nat start) t) = nat start" using assms by auto
  show ?thesis using assms l
    by (simp add: selectItem_def Let_def slice_0_nonneg slice_from_nonneg min_def)
qed

text \<open>
  The text \<^verbatim>\<open>hello /foo world\<close> with the caret after \<^verbatim>\<open>/foo\<close>: the range recorded
  is 6 to 10, and committing \<^verbatim>\<open>/foobar\<close> gives \<^verbatim>\<open>hello /foobar\<close>, the inserted
  space, and the \<^verbatim>\<open> world\<close> that followed the range, with the caret after 14
  characters.
\<close>

theorem selectItem_splice_witness:
  "slashRange (updateSlashMenu (hook_on ''hello /foo world'' 10 [] 0 None)) = Some (6, 10) \<and>
   chatInput (selectItem (item_of ''foobar'') (updateSlashMenu (hook_on ''hello /foo world'' 10 [] 0 None))) =
     Some \<lparr>innerText = ''hello /foobar  world'', caret = Some 14, focused = True, inputEvents = 1\<rparr>"
proof -
  let ?el = "\<lparr>innerText = ''hello /foo world'', caret = Some 10, focused = True, inputEvents = 0\<rparr>"
  let ?h = "updateSlashMenu (hook_on ''hello /foo world'' 10 [] 0 None)"
  have g: "getSlashText (Some ?el) = Some (''foo'', 6, 10)" by code_simp
  have c: "chatInput ?h = Some ?el" by code_simp
  have r: "slashRange ?h = Some (6, 10)" by code_simp
  have t: "''hello /foo world'' = strip_trailing_newlines (innerText ?el)"
    by (simp add: line_terminator_def)
  note b = getSlashText_range [OF g]
  have b1: "(0::int) \<le> 6" and b2: "(6::int) \<le> 10"
    and b3: "6 \<le> int (length ''hello /foo world'')" using b by simp_all
  have e: "chatInput (selectItem (item_of ''foobar'') ?h) =
           Some \<lparr>innerText = ''hello /foobar  world'', caret = Some 14, focused = True,
                 inputEvents = 1\<rparr>"
    by code_simp
  show ?thesis
    using r e selectItem_splice [OF c r t b1 b2 b3, of "item_of ''foobar''"] by simp
qed

text \<open>
  The claim as written fails twice. Its own example: the range over \<^verbatim>\<open>/foo\<close> in
  \<^verbatim>\<open>hello /foo world\<close> is the one \<^verbatim>\<open>updateSlashMenu\<close> records, and the commit
  leaves two spaces before \<^verbatim>\<open>world\<close>, not one. And a surface text that ends in a line
  feed: the commit drops the line feed, which \<open>t[end..)\<close> of the surface text holds.
\<close>

theorem selectItem_splice_counterexample:
  "slashRange (updateSlashMenu (hook_on ''hello /foo world'' 10 [] 0 None)) = Some (6, 10) \<and>
   map_option innerText (chatInput (selectItem (item_of ''foobar'')
       (updateSlashMenu (hook_on ''hello /foo world'' 10 [] 0 None)))) =
     Some ''hello /foobar  world'' \<and>
   ''hello /foobar  world'' \<noteq> ''hello /foobar world'' \<and>
   slashRange (updateSlashMenu (hook_on ''hello /foo\<newline>'' 10 [] 0 None)) = Some (6, 10) \<and>
   map_option innerText (chatInput (selectItem (item_of ''foobar'')
       (updateSlashMenu (hook_on ''hello /foo\<newline>'' 10 [] 0 None)))) =
     Some ''hello /foobar '' \<and>
   ''hello /foobar '' \<noteq> take 6 ''hello /foo\<newline>'' @ ''/foobar'' @ '' '' @ drop 10 ''hello /foo\<newline>''"
  by code_simp

end
